theory Spec2Isabelle
  imports Main "HOL-Library.Word"
begin

section \<open>Connected-component labelling (CCUtil.hpp)\<close>

text \<open>
  A shallow embedding of \<^verbatim>\<open>src/CCUtil.hpp\<close>. The C++ file is a header of templates:
  a label grid (\<^verbatim>\<open>Quick2DSizeT\<close>), two neighbour generators (\<^verbatim>\<open>FourConnect\<close>,
  \<^verbatim>\<open>EightConnect\<close>), pixel accessors and classifiers, and the breadth-first labelling
  algorithm \<^verbatim>\<open>ConnectComponentFinder::operator()\<close>.

  Template parameters become function parameters. Exceptions and undefined behaviour
  become values of the type \<open>error\<close>; the one unbounded loop of the source (the queue
  loop) is a \<^theory_text>\<open>partial_function\<close> in the option monad, so that not returning is
  the value \<open>None\<close>.
\<close>

subsection \<open>Machine integers\<close>

text \<open>
  \<^verbatim>\<open>using IntSizeType = int;\<close> All sizes, coordinates and labels are 32-bit signed
  integers. They are modelled as mathematical integers, and every arithmetic operation of
  the source that could leave the 32-bit range is wrapped by \<open>wrap32\<close> (two's complement
  wrap-around, what the usual compilers produce for the overflow that C++ leaves undefined).
\<close>

type_synonym IntSizeType = int
type_synonym IntPair = "int \<times> int"

definition INT_MIN :: int where
  "INT_MIN = - 2147483648"

definition INT_MAX :: int where
  "INT_MAX = 2147483647"

definition wrap32 :: "int \<Rightarrow> int" where
  "wrap32 x = (x + 2147483648) mod 4294967296 - 2147483648"

subsection \<open>Errors\<close>

text \<open>
  \<^item> \<open>InvalidSize\<close>: \<^verbatim>\<open>throw std::runtime_error{ "invalid size" }\<close> (line 125);
  \<^item> \<open>UnsupportedType\<close>: \<^verbatim>\<open>throw std::runtime_error{ "unsupported type" }\<close> (line 20);
  \<^item> \<open>LengthError\<close>: \<^verbatim>\<open>std::vector::resize\<close> with a negative \<^verbatim>\<open>int\<close> count, which converts
    to a \<^verbatim>\<open>size_t\<close> beyond \<^verbatim>\<open>max_size()\<close> and makes the vector throw;
  \<^item> \<open>OutOfRange\<close>: an unchecked \<^verbatim>\<open>operator[]\<close> beyond the container's size. C++ leaves
    the behaviour undefined; the model makes it an error, so that no theorem speaks about
    a value read out of range.
\<close>

datatype error = InvalidSize | UnsupportedType | LengthError | OutOfRange

subsection \<open>Pixel classifiers (lines 16-38)\<close>

text \<open>The primary template throws for every value; \<^verbatim>\<open>bool\<close> and \<^verbatim>\<open>char\<close> are specialised.
  A \<^verbatim>\<open>char\<close> is an 8-bit word, and its conversion to \<^verbatim>\<open>bool\<close> is the test for nonzero.\<close>

definition BinaryPredicate :: "'a \<Rightarrow> error + bool" where
  "BinaryPredicate val = Inl UnsupportedType"

definition BinaryPredicate_bool :: "bool \<Rightarrow> error + bool" where
  "BinaryPredicate_bool val = Inr val"

definition BinaryPredicate_char :: "8 word \<Rightarrow> error + bool" where
  "BinaryPredicate_char val = Inr (val \<noteq> 0)"

text \<open>
  The finder's classifier defaults to \<^verbatim>\<open>BinaryPredicate<ImgDT>\<close> (line 112), and the pixel
  type selects the template: the specialisation for \<^verbatim>\<open>bool\<close> (lines 24-30), the one for
  \<^verbatim>\<open>char\<close> (lines 32-38), and the primary template (lines 16-22) for every other type.
  \<^verbatim>\<open>char\<close>, \<^verbatim>\<open>signed char\<close> and \<^verbatim>\<open>unsigned char\<close> are three distinct types, so only the
  first has a specialisation. A pixel value of a boolean, character or integer type up to
  \<^verbatim>\<open>int\<close> is tagged with its type, which makes the selection a function of the value.
\<close>

datatype ImgDT =
    BoolPixel bool
  | CharPixel "8 word"
  | SignedCharPixel "8 word"
  | UnsignedCharPixel "8 word"
  | ShortPixel "16 word"
  | UnsignedShortPixel "16 word"
  | IntPixel "32 word"
  | UnsignedPixel "32 word"

definition BinaryPred :: "ImgDT \<Rightarrow> error + bool" where
  "BinaryPred val =
     (case val of
        BoolPixel v \<Rightarrow> BinaryPredicate_bool v
      | CharPixel v \<Rightarrow> BinaryPredicate_char v
      | SignedCharPixel v \<Rightarrow> BinaryPredicate v
      | UnsignedCharPixel v \<Rightarrow> BinaryPredicate v
      | ShortPixel v \<Rightarrow> BinaryPredicate v
      | UnsignedShortPixel v \<Rightarrow> BinaryPredicate v
      | IntPixel v \<Rightarrow> BinaryPredicate v
      | UnsignedPixel v \<Rightarrow> BinaryPredicate v)"

subsection \<open>Pixel accessors (lines 40-54)\<close>

text \<open>
  \<^verbatim>\<open>RoundBracketAccess\<close> calls the image, \<^verbatim>\<open>SquareBracketAccess\<close> indexes it twice. Neither
  checks a bound. An image that can be called is a function, which is defined everywhere;
  an image that is indexed is a list of rows, and an index beyond it is \<open>None\<close> (the
  finder turns it into \<open>OutOfRange\<close>).
\<close>

definition RoundBracketAccess :: "(nat \<Rightarrow> nat \<Rightarrow> 'a) \<Rightarrow> nat \<Rightarrow> nat \<Rightarrow> 'a option" where
  "RoundBracketAccess img row col = Some (img row col)"

definition SquareBracketAccess :: "'a list list \<Rightarrow> nat \<Rightarrow> nat \<Rightarrow> 'a option" where
  "SquareBracketAccess img row col =
     (if row < length img \<and> col < length (img ! row) then Some (img ! row ! col) else None)"

subsection \<open>The label grid \<^verbatim>\<open>Quick2DSizeT\<close> (lines 56-74)\<close>

record Quick2DSizeT =
  cols :: int
  data :: "int list"

definition NOLABEL :: int where
  "NOLABEL = INT_MIN"

text \<open>The constructor: \<^verbatim>\<open>data.resize(rows * cols, NOLABEL); this->cols = cols;\<close>.
  There is no check of the dimensions here.\<close>

definition new_Quick2DSizeT :: "int \<Rightarrow> int \<Rightarrow> error + Quick2DSizeT" where
  "new_Quick2DSizeT nrows ncols =
     (let n = wrap32 (nrows * ncols) in
      if n < 0 then Inl LengthError
      else Inr \<lparr>cols = ncols, data = replicate (nat n) NOLABEL\<rparr>)"

text \<open>\<^verbatim>\<open>operator()(row, col)\<close> returns a reference to \<^verbatim>\<open>data[row * cols + col]\<close>; \<open>slot\<close> is
  the index it computes, \<open>get_label\<close> a read through the reference and \<open>set_label\<close> a write.\<close>

definition slot :: "Quick2DSizeT \<Rightarrow> int \<Rightarrow> int \<Rightarrow> error + nat" where
  "slot g row col =
     (let k = wrap32 (wrap32 (row * cols g) + col) in
      if 0 \<le> k \<and> nat k < length (data g) then Inr (nat k) else Inl OutOfRange)"

definition get_label :: "Quick2DSizeT \<Rightarrow> int \<Rightarrow> int \<Rightarrow> error + int" where
  "get_label g row col =
     (case slot g row col of Inl e \<Rightarrow> Inl e | Inr k \<Rightarrow> Inr (data g ! k))"

definition set_label :: "Quick2DSizeT \<Rightarrow> int \<Rightarrow> int \<Rightarrow> int \<Rightarrow> error + Quick2DSizeT" where
  "set_label g row col v =
     (case slot g row col of Inl e \<Rightarrow> Inl e | Inr k \<Rightarrow> Inr (g\<lparr>data := (data g)[k := v]\<rparr>))"

subsection \<open>Neighbour generators (lines 76-107)\<close>

definition FourConnect :: "IntPair \<Rightarrow> IntPair list" where
  "FourConnect pos =
     [(wrap32 (fst pos + 1), snd pos),
      (fst pos, wrap32 (snd pos + 1)),
      (wrap32 (fst pos - 1), snd pos),
      (fst pos, wrap32 (snd pos - 1))]"

text \<open>The two nested loops over \<open>i, j = -1, 0, 1\<close>, skipping \<open>i = j = 0\<close>.\<close>

definition EightConnect :: "IntPair \<Rightarrow> IntPair list" where
  "EightConnect pos =
     concat (map (\<lambda>i. concat (map (\<lambda>j.
         if i = j \<and> i = 0 then []
         else [(wrap32 (fst pos + i), wrap32 (snd pos + j))]) [- 1, 0, 1])) [- 1, 0, 1])"

subsection \<open>The finder (lines 109-215)\<close>

definition labelStart :: int where
  "labelStart = wrap32 (NOLABEL + 1)"

definition IsPixelPosValid :: "IntPair \<Rightarrow> IntPair \<Rightarrow> bool" where
  "IsPixelPosValid sz pos \<longleftrightarrow>
     fst pos \<ge> 0 \<and> fst pos < fst sz \<and> snd pos \<ge> 0 \<and> snd pos < snd sz"

text \<open>
  The local variables of \<^verbatim>\<open>operator()\<close> that the loops change. The last two fields are
  ghost fields: \<open>pushLog\<close> records every \<^verbatim>\<open>myQueue.push\<close> with the label written beside it,
  \<open>seedLog\<close> every push made by the outer scan (line 149). No branch reads them.
\<close>

record finder_state =
  labelStorage :: Quick2DSizeT
  currentLabel :: int
  myQueue :: "IntPair list"
  pushLog :: "(IntPair \<times> int) list"
  seedLog :: "IntPair list"

text \<open>Bounded loops that stop at the first error: over a total body, and over a body
  that may itself not return.\<close>

fun for_loop :: "'i list \<Rightarrow> ('i \<Rightarrow> 's \<Rightarrow> error + 's) \<Rightarrow> 's \<Rightarrow> error + 's" where
  "for_loop [] body s = Inr s"
| "for_loop (x # xs) body s =
     (case body x s of Inl e \<Rightarrow> Inl e | Inr s' \<Rightarrow> for_loop xs body s')"

fun for_loop_opt ::
  "'i list \<Rightarrow> ('i \<Rightarrow> 's \<Rightarrow> (error + 's) option) \<Rightarrow> 's \<Rightarrow> (error + 's) option" where
  "for_loop_opt [] body s = Some (Inr s)"
| "for_loop_opt (x # xs) body s =
     (case body x s of
        None \<Rightarrow> None
      | Some (Inl e) \<Rightarrow> Some (Inl e)
      | Some (Inr s') \<Rightarrow> for_loop_opt xs body s')"

text \<open>\<^verbatim>\<open>myQueue.push(pos); labelStorage(pos) = currentLabel;\<close> (lines 149-151 and 172-174).\<close>

definition push_and_label :: "IntPair \<Rightarrow> finder_state \<Rightarrow> error + finder_state" where
  "push_and_label pos st =
     (case set_label (labelStorage st) (fst pos) (snd pos) (currentLabel st) of
        Inl e \<Rightarrow> Inl e
      | Inr g \<Rightarrow> Inr (st\<lparr>labelStorage := g,
                          myQueue := myQueue st @ [pos],
                          pushLog := pushLog st @ [(pos, currentLabel st)]\<rparr>))"

text \<open>The body of the loop over the neighbours (lines 165-176). \<open>pix\<close> is the accessor
  applied to the image. The label is read only when the pixel is foreground (\<^verbatim>\<open>&&\<close>).\<close>

definition visit ::
  "(nat \<Rightarrow> nat \<Rightarrow> 'a option) \<Rightarrow> ('a \<Rightarrow> error + bool) \<Rightarrow> IntPair \<Rightarrow>
   IntPair \<Rightarrow> finder_state \<Rightarrow> error + finder_state" where
  "visit pix pred sz pixelPos st =
     (if IsPixelPosValid sz pixelPos then
        (case pix (nat (fst pixelPos)) (nat (snd pixelPos)) of
           None \<Rightarrow> Inl OutOfRange
         | Some neighbourPixelVal \<Rightarrow>
             (case pred neighbourPixelVal of
                Inl e \<Rightarrow> Inl e
              | Inr fg \<Rightarrow>
                  if fg then
                    (case get_label (labelStorage st) (fst pixelPos) (snd pixelPos) of
                       Inl e \<Rightarrow> Inl e
                     | Inr l \<Rightarrow> if l = NOLABEL then push_and_label pixelPos st else Inr st)
                  else Inr st))
      else Inr st)"

text \<open>One round of the queue loop (lines 159-177): pop the front, visit its neighbours.\<close>

definition drain_step ::
  "(nat \<Rightarrow> nat \<Rightarrow> 'a option) \<Rightarrow> ('a \<Rightarrow> error + bool) \<Rightarrow> (IntPair \<Rightarrow> IntPair list) \<Rightarrow>
   IntPair \<Rightarrow> finder_state \<Rightarrow> error + finder_state" where
  "drain_step pix pred connect sz st =
     (let front = hd (myQueue st);
          st1 = st\<lparr>myQueue := tl (myQueue st)\<rparr>
      in for_loop (connect front) (visit pix pred sz) st1)"

text \<open>\<^verbatim>\<open>while (!myQueue.empty()) { ... }\<close> (lines 157-178).\<close>

partial_function (option) drain ::
  "(nat \<Rightarrow> nat \<Rightarrow> 'a option) \<Rightarrow> ('a \<Rightarrow> error + bool) \<Rightarrow> (IntPair \<Rightarrow> IntPair list) \<Rightarrow>
   IntPair \<Rightarrow> finder_state \<Rightarrow> (error + finder_state) option" where
  "drain pix pred connect sz st =
     (if myQueue st = [] then Some (Inr st)
      else (case drain_step pix pred connect sz st of
              Inl e \<Rightarrow> Some (Inl e)
            | Inr st' \<Rightarrow> drain pix pred connect sz st'))"

declare drain.simps [code]

text \<open>The body of the outer scan at pixel \<open>(i, j)\<close> (lines 141-183).\<close>

definition scan_pixel ::
  "(nat \<Rightarrow> nat \<Rightarrow> 'a option) \<Rightarrow> ('a \<Rightarrow> error + bool) \<Rightarrow> (IntPair \<Rightarrow> IntPair list) \<Rightarrow>
   IntPair \<Rightarrow> IntPair \<Rightarrow> finder_state \<Rightarrow> (error + finder_state) option" where
  "scan_pixel pix pred connect sz pos st =
     (case pix (nat (fst pos)) (nat (snd pos)) of
        None \<Rightarrow> Some (Inl OutOfRange)
      | Some pixelVal \<Rightarrow>
          (case pred pixelVal of
             Inl e \<Rightarrow> Some (Inl e)
           | Inr isForeground \<Rightarrow>
               if isForeground then
                 (case get_label (labelStorage st) (fst pos) (snd pos) of
                    Inl e \<Rightarrow> Some (Inl e)
                  | Inr l \<Rightarrow>
                      (case (if l = NOLABEL
                             then push_and_label pos (st\<lparr>seedLog := seedLog st @ [pos]\<rparr>)
                             else Inr st) of
                         Inl e \<Rightarrow> Some (Inl e)
                       | Inr st1 \<Rightarrow>
                           (case drain pix pred connect sz st1 of
                              None \<Rightarrow> None
                            | Some (Inl e) \<Rightarrow> Some (Inl e)
                            | Some (Inr st2) \<Rightarrow>
                                Some (Inr (if l = NOLABEL
                                           then st2\<lparr>currentLabel := wrap32 (currentLabel st2 + 1)\<rparr>
                                           else st2)))))
               else Some (Inr st)))"

text \<open>The two nested loops that mark the components (lines 139-186).\<close>

definition label_pixels ::
  "(nat \<Rightarrow> nat \<Rightarrow> 'a option) \<Rightarrow> ('a \<Rightarrow> error + bool) \<Rightarrow> (IntPair \<Rightarrow> IntPair list) \<Rightarrow>
   IntPair \<Rightarrow> finder_state \<Rightarrow> (error + finder_state) option" where
  "label_pixels pix pred connect sz st =
     for_loop_opt [0..fst sz - 1] (\<lambda>i.
       for_loop_opt [0..snd sz - 1] (\<lambda>j. scan_pixel pix pred connect sz (i, j))) st"

text \<open>The body of the second scan (lines 196-199): a labelled pixel goes into the set
  at index \<^verbatim>\<open>label - labelStart\<close> of the result vector.\<close>

definition collect :: "Quick2DSizeT \<Rightarrow> IntPair \<Rightarrow> IntPair set list \<Rightarrow> error + IntPair set list" where
  "collect g pos result =
     (case get_label g (fst pos) (snd pos) of
        Inl e \<Rightarrow> Inl e
      | Inr l \<Rightarrow>
          if l \<noteq> NOLABEL then
            (let index = wrap32 (l - labelStart) in
             if 0 \<le> index \<and> nat index < length result
             then Inr (result[nat index := insert pos (result ! nat index)])
             else Inl OutOfRange)
          else Inr result)"

text \<open>Lines 188-203: size the result vector and scan the label grid.\<close>

definition build_result :: "IntPair \<Rightarrow> finder_state \<Rightarrow> error + IntPair set list" where
  "build_result sz st =
     (let numOfCC = wrap32 (currentLabel st - labelStart) in
      if numOfCC < 0 then Inl LengthError
      else for_loop [0..fst sz - 1] (\<lambda>i.
             for_loop [0..snd sz - 1] (\<lambda>j. collect (labelStorage st) (i, j)))
             (replicate (nat numOfCC) {}))"

text \<open>Lines 124-186: the check of the size, the allocation of the label grid and the
  labelling scan. \<open>find_labels\<close> returns the state in which the second scan starts.\<close>

definition find_labels ::
  "('img \<Rightarrow> nat \<Rightarrow> nat \<Rightarrow> 'a option) \<Rightarrow> ('a \<Rightarrow> error + bool) \<Rightarrow> (IntPair \<Rightarrow> IntPair list) \<Rightarrow>
   'img \<Rightarrow> IntPair \<Rightarrow> (error + finder_state) option" where
  "find_labels access pred connect img sz =
     (if fst sz < 1 \<or> snd sz < 1 then Some (Inl InvalidSize)
      else
        (case new_Quick2DSizeT (fst sz) (snd sz) of
           Inl e \<Rightarrow> Some (Inl e)
         | Inr g \<Rightarrow>
             label_pixels (access img) pred connect sz
               \<lparr>labelStorage = g, currentLabel = labelStart, myQueue = [],
                pushLog = [], seedLog = []\<rparr>))"

text \<open>\<^verbatim>\<open>ConnectComponentFinder::operator()\<close>.\<close>

definition ConnectComponentFinder ::
  "('img \<Rightarrow> nat \<Rightarrow> nat \<Rightarrow> 'a option) \<Rightarrow> ('a \<Rightarrow> error + bool) \<Rightarrow> (IntPair \<Rightarrow> IntPair list) \<Rightarrow>
   'img \<Rightarrow> IntPair \<Rightarrow> (error + IntPair set list) option" where
  "ConnectComponentFinder access pred connect img sz =
     (case find_labels access pred connect img sz of
        None \<Rightarrow> None
      | Some (Inl e) \<Rightarrow> Some (Inl e)
      | Some (Inr st) \<Rightarrow> Some (build_result sz st))"

section \<open>Vocabulary of the proofs\<close>

subsection \<open>The label grid as a function on coordinates\<close>

text \<open>\<open>fits sz\<close>: the size is accepted by the finder and the number of pixels is an \<^verbatim>\<open>int\<close>.
  \<open>label_at\<close> reads the grid at a coordinate of the image (\<open>NOLABEL\<close> elsewhere).\<close>

definition fits :: "IntPair \<Rightarrow> bool" where
  "fits sz \<longleftrightarrow> 1 \<le> fst sz \<and> 1 \<le> snd sz \<and> fst sz * snd sz \<le> INT_MAX"

definition grid_ok :: "IntPair \<Rightarrow> Quick2DSizeT \<Rightarrow> bool" where
  "grid_ok sz g \<longleftrightarrow> cols g = snd sz \<and> int (length (data g)) = fst sz * snd sz"

definition label_at :: "IntPair \<Rightarrow> Quick2DSizeT \<Rightarrow> IntPair \<Rightarrow> int" where
  "label_at sz g p =
     (if IsPixelPosValid sz p then data g ! nat (fst p * cols g + snd p) else NOLABEL)"

text \<open>The label of a coordinate in a state of the finder.\<close>

definition lab :: "IntPair \<Rightarrow> finder_state \<Rightarrow> IntPair \<Rightarrow> int" where
  "lab sz st = label_at sz (labelStorage st)"

subsection \<open>Foreground and supported images\<close>

text \<open>The pixel at a coordinate is read and classified as foreground.\<close>

definition is_foreground ::
  "(nat \<Rightarrow> nat \<Rightarrow> 'a option) \<Rightarrow> ('a \<Rightarrow> error + bool) \<Rightarrow> IntPair \<Rightarrow> bool" where
  "is_foreground pix pred pos =
     (case pix (nat (fst pos)) (nat (snd pos)) of
        None \<Rightarrow> False
      | Some v \<Rightarrow> (case pred v of Inl e \<Rightarrow> False | Inr b \<Rightarrow> b))"

definition foreground ::
  "(nat \<Rightarrow> nat \<Rightarrow> 'a option) \<Rightarrow> ('a \<Rightarrow> error + bool) \<Rightarrow> IntPair \<Rightarrow> IntPair set" where
  "foreground pix pred sz = {p. IsPixelPosValid sz p \<and> is_foreground pix pred p}"

text \<open>A supported image: every pixel of the declared size can be read, and the classifier
  classifies it.\<close>

definition supported ::
  "(nat \<Rightarrow> nat \<Rightarrow> 'a option) \<Rightarrow> ('a \<Rightarrow> error + bool) \<Rightarrow> IntPair \<Rightarrow> bool" where
  "supported pix pred sz \<longleftrightarrow>
     (\<forall>p. IsPixelPosValid sz p \<longrightarrow>
        (\<exists>v b. pix (nat (fst p)) (nat (snd p)) = Some v \<and> pred v = Inr b))"

text \<open>What \<open>push_and_label\<close> does to the state, in terms of \<open>lab\<close>.\<close>

definition labelled_step :: "IntPair \<Rightarrow> IntPair \<Rightarrow> finder_state \<Rightarrow> finder_state \<Rightarrow> bool" where
  "labelled_step sz p st st' \<longleftrightarrow>
     grid_ok sz (labelStorage st') \<and>
     lab sz st' = (lab sz st)(p := currentLabel st) \<and>
     myQueue st' = myQueue st @ [p] \<and>
     currentLabel st' = currentLabel st \<and>
     pushLog st' = pushLog st @ [(p, currentLabel st)] \<and>
     seedLog st' = seedLog st"

subsection \<open>Invariants of the labelling scan\<close>

text \<open>Row-major order, the order of the outer scan: \<open>p\<close> is met before \<open>q\<close>.\<close>

definition rm_less :: "IntPair \<Rightarrow> IntPair \<Rightarrow> bool" where
  "rm_less p q \<longleftrightarrow> fst p < fst q \<or> (fst p = fst q \<and> snd p < snd q)"

text \<open>Labelled pixels are foreground, labels lie between \<open>labelStart\<close> and the current
  label, the queue holds pixels of the current label, and every seed is labelled.\<close>

definition basic_inv :: "IntPair set \<Rightarrow> IntPair \<Rightarrow> finder_state \<Rightarrow> bool" where
  "basic_inv F sz st \<longleftrightarrow>
     grid_ok sz (labelStorage st) \<and>
     (\<forall>p. lab sz st p \<noteq> NOLABEL \<longrightarrow>
          p \<in> F \<and> labelStart \<le> lab sz st p \<and> lab sz st p \<le> currentLabel st) \<and>
     (\<forall>p \<in> set (myQueue st). lab sz st p = currentLabel st) \<and>
     distinct (seedLog st) \<and>
     (\<forall>s \<in> set (seedLog st). lab sz st s \<noteq> NOLABEL) \<and>
     labelStart \<le> currentLabel st \<and>
     currentLabel st \<le> labelStart + int (length (seedLog st))"

text \<open>The number of pixels without a label: what the queue loop uses up.\<close>

definition unlabelled :: "IntPair \<Rightarrow> finder_state \<Rightarrow> nat" where
  "unlabelled sz st = card {p. IsPixelPosValid sz p \<and> lab sz st p = NOLABEL}"

definition drain_order :: "IntPair \<Rightarrow> (finder_state \<times> finder_state) set" where
  "drain_order sz =
     inv_image (less_than <*lex*> less_than) (\<lambda>st. (unlabelled sz st, length (myQueue st)))"

text \<open>The adjacency of foreground pixels under a neighbour generator.\<close>

definition edges :: "(IntPair \<Rightarrow> IntPair list) \<Rightarrow> IntPair set \<Rightarrow> (IntPair \<times> IntPair) set" where
  "edges connect F = {(p, q). p \<in> F \<and> q \<in> F \<and> q \<in> set (connect p)}"

text \<open>
  The invariant of the queue loop for the component of the seed \<open>s\<close>, while the neighbours
  of the front \<open>f\<close> are visited and those in \<open>P\<close> are done. Components with an earlier
  label are closed under adjacency and connected; every pixel of the current label is
  reachable from the seed; a pixel of the current label that has left the queue has all
  its neighbours labelled.
\<close>

definition conn_visit ::
  "(IntPair \<times> IntPair) set \<Rightarrow> IntPair \<Rightarrow> IntPair \<Rightarrow> IntPair \<Rightarrow> IntPair set \<Rightarrow>
   finder_state \<Rightarrow> bool" where
  "conn_visit E sz s f P st \<longleftrightarrow>
     (\<forall>p q. lab sz st p \<noteq> NOLABEL \<and> lab sz st p \<noteq> currentLabel st \<and> (p, q) \<in> E \<longrightarrow>
            lab sz st q = lab sz st p) \<and>
     (\<forall>p q. lab sz st p \<noteq> NOLABEL \<and> lab sz st p \<noteq> currentLabel st \<and>
            lab sz st q = lab sz st p \<longrightarrow> (p, q) \<in> E\<^sup>*) \<and>
     (\<forall>p. lab sz st p = currentLabel st \<longrightarrow> (s, p) \<in> E\<^sup>*) \<and>
     (\<forall>p q. lab sz st p = currentLabel st \<and> p \<notin> set (myQueue st) \<and> (p, q) \<in> E \<and>
            (p = f \<longrightarrow> q \<in> P) \<longrightarrow> lab sz st q = currentLabel st)"

text \<open>Between two pixels of the outer scan: every label is closed and connected.\<close>

definition conn_scan :: "(IntPair \<times> IntPair) set \<Rightarrow> IntPair \<Rightarrow> finder_state \<Rightarrow> bool" where
  "conn_scan E sz st \<longleftrightarrow>
     (\<forall>p q. lab sz st p \<noteq> NOLABEL \<and> (p, q) \<in> E \<longrightarrow> lab sz st q = lab sz st p) \<and>
     (\<forall>p q. lab sz st p \<noteq> NOLABEL \<and> lab sz st q = lab sz st p \<longrightarrow> (p, q) \<in> E\<^sup>*)"

text \<open>The push log lists every labelled pixel once, with its label.\<close>

definition log_inv :: "IntPair \<Rightarrow> finder_state \<Rightarrow> bool" where
  "log_inv sz st \<longleftrightarrow>
     distinct (map fst (pushLog st)) \<and>
     set (pushLog st) = {(p, lab sz st p) | p. lab sz st p \<noteq> NOLABEL}"

text \<open>The seed log: seed \<open>k\<close> has the label \<open>labelStart + k\<close> and is the first pixel of
  that label in the scan order; the seeds are in scan order; every foreground pixel
  before \<open>pos\<close> has a label.\<close>

definition seed_inv :: "IntPair set \<Rightarrow> IntPair \<Rightarrow> IntPair \<Rightarrow> finder_state \<Rightarrow> bool" where
  "seed_inv F sz pos st \<longleftrightarrow>
     (\<forall>k < length (seedLog st). lab sz st (seedLog st ! k) = labelStart + int k) \<and>
     (\<forall>k < length (seedLog st). \<forall>p. lab sz st p = labelStart + int k \<longrightarrow>
          \<not> rm_less p (seedLog st ! k)) \<and>
     sorted_wrt rm_less (seedLog st) \<and>
     (\<forall>p \<in> F. rm_less p pos \<longrightarrow> lab sz st p \<noteq> NOLABEL)"

text \<open>The whole invariant while the queue of the seed \<open>pos\<close> is drained (the current label
  is the label of the last seed), and the invariant between two pixels of the outer scan,
  before the pixel \<open>pos\<close> (the current label is unused).\<close>

definition visit_inv ::
  "IntPair set \<Rightarrow> (IntPair \<times> IntPair) set \<Rightarrow> IntPair \<Rightarrow> IntPair \<Rightarrow> IntPair \<Rightarrow> IntPair set \<Rightarrow>
   finder_state \<Rightarrow> bool" where
  "visit_inv F E sz pos f P st \<longleftrightarrow>
     basic_inv F sz st \<and> conn_visit E sz pos f P st \<and> log_inv sz st \<and> seed_inv F sz pos st \<and>
     seedLog st \<noteq> [] \<and> last (seedLog st) = pos \<and>
     currentLabel st + 1 = labelStart + int (length (seedLog st))"

definition scan_inv ::
  "IntPair set \<Rightarrow> (IntPair \<times> IntPair) set \<Rightarrow> IntPair \<Rightarrow> IntPair \<Rightarrow> finder_state \<Rightarrow> bool" where
  "scan_inv F E sz pos st \<longleftrightarrow>
     basic_inv F sz st \<and> myQueue st = [] \<and>
     currentLabel st = labelStart + int (length (seedLog st)) \<and>
     (\<forall>p. lab sz st p \<noteq> currentLabel st) \<and>
     conn_scan E sz st \<and> log_inv sz st \<and> seed_inv F sz pos st \<and>
     (\<forall>s \<in> set (seedLog st). rm_less s pos)"

subsection \<open>Paths of foreground pixels\<close>

text \<open>A path of foreground pixels in which each pixel is a neighbour of the one before,
  and the pairs of pixels that such a path joins.\<close>

fun is_path :: "(IntPair \<Rightarrow> IntPair list) \<Rightarrow> IntPair set \<Rightarrow> IntPair list \<Rightarrow> bool" where
  "is_path connect F [] = False"
| "is_path connect F [p] = (p \<in> F)"
| "is_path connect F (p # q # ps) =
     (p \<in> F \<and> q \<in> set (connect p) \<and> is_path connect F (q # ps))"

definition connected :: "(IntPair \<Rightarrow> IntPair list) \<Rightarrow> IntPair set \<Rightarrow> IntPair \<Rightarrow> IntPair \<Rightarrow> bool" where
  "connected connect F p q \<longleftrightarrow> (\<exists>ps. is_path connect F ps \<and> hd ps = p \<and> last ps = q)"

subsection \<open>Properties of single steps\<close>

text \<open>The label grid of a state has the columns and the length of the grid \<open>g\<close>.\<close>

definition same_shape :: "Quick2DSizeT \<Rightarrow> finder_state \<Rightarrow> bool" where
  "same_shape g st \<longleftrightarrow>
     cols (labelStorage st) = cols g \<and> length (data (labelStorage st)) = length (data g)"

text \<open>Every slot that holds a real label in the first state holds the same label in the
  second.\<close>

definition labels_kept :: "finder_state \<Rightarrow> finder_state \<Rightarrow> bool" where
  "labels_kept st st' \<longleftrightarrow>
     (\<forall>r c l. get_label (labelStorage st) r c = Inr l \<and> l \<noteq> NOLABEL \<longrightarrow>
        get_label (labelStorage st') r c = Inr l)"

section \<open>Properties of the finder\<close>

subsection \<open>Machine integers\<close>

lemma wrap32_id: "INT_MIN \<le> x \<Longrightarrow> x \<le> INT_MAX \<Longrightarrow> wrap32 x = x"
  by (simp add: wrap32_def INT_MIN_def INT_MAX_def)

subsection \<open>The label grid\<close>

lemma idx_bounds:
  assumes "IsPixelPosValid sz p"
  shows "0 \<le> fst p * snd sz + snd p" and "fst p * snd sz + snd p < fst sz * snd sz"
proof -
  from assms have b: "0 \<le> fst p" "fst p + 1 \<le> fst sz" "0 \<le> snd p" "snd p < snd sz"
    by (auto simp: IsPixelPosValid_def)
  then have c: "0 \<le> snd sz" by linarith
  from b c show "0 \<le> fst p * snd sz + snd p" by simp
  have "(fst p + 1) * snd sz \<le> fst sz * snd sz"
    using b(2) c by (rule mult_right_mono)
  then show "fst p * snd sz + snd p < fst sz * snd sz"
    using b(4) by (simp add: algebra_simps)
qed

lemma idx_inj:
  assumes "IsPixelPosValid sz p" "IsPixelPosValid sz q"
    and "fst p * snd sz + snd p = fst q * snd sz + snd q"
  shows "p = q"
proof -
  from assms(1,2) have b: "0 \<le> snd p" "snd p < snd sz" "0 \<le> snd q" "snd q < snd sz"
    by (auto simp: IsPixelPosValid_def)
  have "(fst p * snd sz + snd p) div snd sz = fst p" using b by simp
  moreover have "(fst q * snd sz + snd q) div snd sz = fst q" using b by simp
  ultimately have "fst p = fst q" using assms(3) by simp
  with assms(3) have "snd p = snd q" by simp
  with \<open>fst p = fst q\<close> show ?thesis by (simp add: prod_eq_iff)
qed

lemma slot_valid:
  assumes "fits sz" "grid_ok sz g" "IsPixelPosValid sz p"
  shows "slot g (fst p) (snd p) = Inr (nat (fst p * snd sz + snd p))"
proof -
  note ib = idx_bounds[OF assms(3)]
  from assms(3) have b: "0 \<le> fst p" "0 \<le> snd p" "snd p < snd sz"
    by (auto simp: IsPixelPosValid_def)
  have m: "0 \<le> fst p * snd sz" using b by simp
  have le: "fst p * snd sz + snd p \<le> INT_MAX" using ib(2) assms(1) by (simp add: fits_def)
  have "INT_MIN \<le> fst p * snd sz" "fst p * snd sz \<le> INT_MAX"
    using m le b unfolding INT_MIN_def by linarith+
  then have w1: "wrap32 (fst p * snd sz) = fst p * snd sz"
    by (rule wrap32_id)
  have "INT_MIN \<le> fst p * snd sz + snd p"
    using ib(1) unfolding INT_MIN_def by linarith
  then have w2: "wrap32 (fst p * snd sz + snd p) = fst p * snd sz + snd p"
    using le by (rule wrap32_id)
  have "nat (fst p * snd sz + snd p) < length (data g)"
    using ib assms(2) by (simp add: grid_ok_def nat_less_iff)
  then show ?thesis
    using assms(2) ib(1) by (simp add: slot_def w1 w2 grid_ok_def)
qed

lemma get_label_valid:
  assumes "fits sz" "grid_ok sz g" "IsPixelPosValid sz p"
  shows "get_label g (fst p) (snd p) = Inr (label_at sz g p)"
  using assms by (simp add: get_label_def slot_valid[OF assms] label_at_def grid_ok_def)

lemma set_label_valid:
  assumes "fits sz" "grid_ok sz g" "IsPixelPosValid sz p"
  shows "\<exists>g'. set_label g (fst p) (snd p) v = Inr g' \<and> grid_ok sz g' \<and>
           label_at sz g' = (label_at sz g)(p := v)"
proof -
  let ?g' = "g\<lparr>data := (data g)[nat (fst p * snd sz + snd p) := v]\<rparr>"
  have s: "set_label g (fst p) (snd p) v = Inr ?g'"
    by (simp add: set_label_def slot_valid[OF assms])
  have ok: "grid_ok sz ?g'" using assms(2) by (simp add: grid_ok_def)
  have len: "nat (fst p * snd sz + snd p) < length (data g)"
    using idx_bounds[OF assms(3)] assms(2) by (simp add: grid_ok_def nat_less_iff)
  have "label_at sz ?g' q = ((label_at sz g)(p := v)) q" for q
  proof (cases "IsPixelPosValid sz q")
    case False
    with assms(3) show ?thesis by (auto simp: label_at_def)
  next
    case True
    show ?thesis
    proof (cases "q = p")
      case True
      with assms len show ?thesis by (simp add: label_at_def grid_ok_def)
    next
      case False
      with idx_inj[OF True assms(3)] have "fst q * snd sz + snd q \<noteq> fst p * snd sz + snd p"
        by blast
      moreover have "0 \<le> fst q * snd sz + snd q" by (rule idx_bounds[OF True])
      moreover have "0 \<le> fst p * snd sz + snd p" by (rule idx_bounds[OF assms(3)])
      ultimately have "nat (fst q * snd sz + snd q) \<noteq> nat (fst p * snd sz + snd p)"
        by simp
      with True False assms(2) show ?thesis by (simp add: label_at_def grid_ok_def)
    qed
  qed
  then have "label_at sz ?g' = (label_at sz g)(p := v)" by (rule ext)
  with s ok show ?thesis by blast
qed

lemma new_Quick2DSizeT_fits:
  assumes "fits sz"
  shows "\<exists>g. new_Quick2DSizeT (fst sz) (snd sz) = Inr g \<and> grid_ok sz g \<and>
           label_at sz g = (\<lambda>p. NOLABEL)"
proof -
  from assms have p: "0 \<le> fst sz * snd sz" by (simp add: fits_def)
  have "INT_MIN \<le> fst sz * snd sz" using p unfolding INT_MIN_def by linarith
  moreover have "fst sz * snd sz \<le> INT_MAX" using assms by (simp add: fits_def)
  ultimately have w: "wrap32 (fst sz * snd sz) = fst sz * snd sz"
    by (rule wrap32_id)
  let ?g = "\<lparr>cols = snd sz, data = replicate (nat (fst sz * snd sz)) NOLABEL\<rparr>"
  have n: "new_Quick2DSizeT (fst sz) (snd sz) = Inr ?g"
    using p by (simp add: new_Quick2DSizeT_def w)
  have ok: "grid_ok sz ?g" using p by (simp add: grid_ok_def)
  have "label_at sz ?g q = NOLABEL" for q
    using idx_bounds[of sz q] by (auto simp: label_at_def nat_less_iff)
  then have "label_at sz ?g = (\<lambda>p. NOLABEL)" by (rule ext)
  with n ok show ?thesis by blast
qed


subsection \<open>Rules for the loops\<close>

lemma for_loop_rule:
  assumes "P A s"
    and "\<And>x A s. x \<in> set xs \<Longrightarrow> P A s \<Longrightarrow> \<exists>s'. body x s = Inr s' \<and> P (insert x A) s'"
  shows "\<exists>s'. for_loop xs body s = Inr s' \<and> P (A \<union> set xs) s'"
  using assms
proof (induction xs arbitrary: A s)
  case Nil
  then show ?case by simp
next
  case (Cons x xs)
  from Cons.prems obtain s1 where s1: "body x s = Inr s1" "P (insert x A) s1"
    by (meson list.set_intros(1))
  have "\<exists>s'. for_loop xs body s1 = Inr s' \<and> P (insert x A \<union> set xs) s'"
    by (rule Cons.IH[OF s1(2)]) (use Cons.prems(2) in auto)
  with s1(1) show ?case by simp
qed

lemma for_loop_preserves:
  assumes "for_loop xs body s = Inr s'" "Q s"
    and "\<And>x s s'. Q s \<Longrightarrow> body x s = Inr s' \<Longrightarrow> Q s'"
  shows "Q s'"
  using assms
proof (induction xs arbitrary: s)
  case Nil
  then show ?case by simp
next
  case (Cons x xs)
  from Cons.prems(1) obtain s1 where s1: "body x s = Inr s1" "for_loop xs body s1 = Inr s'"
    by (auto split: sum.splits)
  from Cons.prems(2) s1(1) have "Q s1" by (rule Cons.prems(3))
  with s1(2) show ?case using Cons.prems(3) by (rule Cons.IH)
qed

lemma for_loop_error:
  assumes "for_loop xs body s = Inl e"
  shows "\<exists>x s0. x \<in> set xs \<and> body x s0 = Inl e"
  using assms
proof (induction xs arbitrary: s)
  case Nil
  then show ?case by simp
next
  case (Cons x xs)
  show ?case
  proof (cases "body x s")
    case (Inl e')
    with Cons.prems show ?thesis by auto
  next
    case (Inr s1)
    with Cons.prems have "for_loop xs body s1 = Inl e" by simp
    from Cons.IH[OF this] show ?thesis by auto
  qed
qed

lemma for_loop_fails:
  assumes "x \<in> set xs" "\<And>s. \<exists>e. body x s = Inl e"
  shows "\<exists>e. for_loop xs body s = Inl e"
  using assms(1)
proof (induction xs arbitrary: s)
  case Nil
  then show ?case by simp
next
  case (Cons y ys)
  show ?case
  proof (cases "body y s")
    case (Inl e)
    then show ?thesis by simp
  next
    case (Inr s1)
    have "y \<noteq> x" using assms(2)[of s] Inr by auto
    with Cons.prems have "x \<in> set ys" by simp
    from Cons.IH[OF this, of s1] Inr show ?thesis by simp
  qed
qed

lemma for_loop_opt_total:
  "for_loop_opt xs (\<lambda>x s. Some (body x s)) s = Some (for_loop xs body s)"
  by (induction xs arbitrary: s) (auto split: sum.splits)

lemma for_loop_opt_preserves:
  assumes "for_loop_opt xs body s = Some (Inr s')" "Q s"
    and "\<And>x s s'. Q s \<Longrightarrow> body x s = Some (Inr s') \<Longrightarrow> Q s'"
  shows "Q s'"
  using assms
proof (induction xs arbitrary: s)
  case Nil
  then show ?case by simp
next
  case (Cons x xs)
  from Cons.prems(1) obtain s1 where
    s1: "body x s = Some (Inr s1)" "for_loop_opt xs body s1 = Some (Inr s')"
    by (auto split: option.splits sum.splits)
  from Cons.prems(2) s1(1) have "Q s1" by (rule Cons.prems(3))
  with s1(2) show ?case using Cons.prems(3) by (rule Cons.IH)
qed

lemma for_loop_opt_error:
  assumes "for_loop_opt xs body s = Some (Inl e)"
  shows "\<exists>x s0. x \<in> set xs \<and> body x s0 = Some (Inl e)"
  using assms
proof (induction xs arbitrary: s)
  case Nil
  then show ?case by simp
next
  case (Cons x xs)
  show ?case
  proof (cases "body x s")
    case None
    with Cons.prems show ?thesis by simp
  next
    case (Some r)
    show ?thesis
    proof (cases r)
      case (Inl e')
      with Some Cons.prems show ?thesis by auto
    next
      case (Inr s1)
      with Some Cons.prems have "for_loop_opt xs body s1 = Some (Inl e)" by simp
      from Cons.IH[OF this] show ?thesis by auto
    qed
  qed
qed

text \<open>A counting loop with an invariant that depends on the counter.\<close>

lemma for_upto_rule:
  assumes "P lo s" "lo \<le> hi + 1"
    and "\<And>i s. lo \<le> i \<Longrightarrow> i \<le> hi \<Longrightarrow> P i s \<Longrightarrow> \<exists>s'. body i s = Some (Inr s') \<and> P (i + 1) s'"
  shows "\<exists>s'. for_loop_opt [lo..hi] body s = Some (Inr s') \<and> P (hi + 1) s'"
  using assms
proof (induction "nat (hi + 1 - lo)" arbitrary: lo s)
  case 0
  then have "lo = hi + 1" by simp
  with "0.prems"(1) show ?case by simp
next
  case (Suc n)
  then have le: "lo \<le> hi" by linarith
  from Suc.prems(3)[OF _ le Suc.prems(1)] obtain s1 where
    s1: "body lo s = Some (Inr s1)" "P (lo + 1) s1" by auto
  have "\<exists>s'. for_loop_opt [lo + 1..hi] body s1 = Some (Inr s') \<and> P (hi + 1) s'"
  proof (rule Suc.hyps(1))
    show "n = nat (hi + 1 - (lo + 1))" using Suc.hyps(2) by linarith
    show "P (lo + 1) s1" by (rule s1(2))
    show "lo + 1 \<le> hi + 1" using le by simp
    show "\<exists>s'. body i s = Some (Inr s') \<and> P (i + 1) s'"
      if "lo + 1 \<le> i" "i \<le> hi" "P i s" for i s
      using that Suc.prems(3)[of i s] by simp
  qed
  with s1(1) le show ?case by (simp add: upto_rec1[of lo hi])
qed

lemma drain_total:
  assumes "wf r" "I st"
    and step: "\<And>st. I st \<Longrightarrow> myQueue st \<noteq> [] \<Longrightarrow>
            \<exists>st'. drain_step pix pred connect sz st = Inr st' \<and> I st' \<and> (st', st) \<in> r"
  shows "\<exists>st'. drain pix pred connect sz st = Some (Inr st') \<and> I st' \<and> myQueue st' = []"
  using assms(1,2)
proof (induction st rule: wf_induct_rule)
  case (less st)
  show ?case
  proof (cases "myQueue st = []")
    case True
    with less.prems show ?thesis by (subst drain.simps) simp
  next
    case False
    from step[OF less.prems False] obtain st1 where
      st1: "drain_step pix pred connect sz st = Inr st1" "I st1" "(st1, st) \<in> r" by blast
    from less.IH[OF st1(3) st1(2)] obtain st' where
      "drain pix pred connect sz st1 = Some (Inr st')" "I st'" "myQueue st' = []" by blast
    with False st1(1) show ?thesis by (subst drain.simps) simp
  qed
qed

lemma drain_preserves_aux:
  assumes "drain pix pred connect sz st = Some y"
  shows "(\<forall>a b. Q a \<longrightarrow> drain_step pix pred connect sz a = Inr b \<longrightarrow> Q b) \<longrightarrow> Q st \<longrightarrow>
         (\<forall>st'. y = Inr st' \<longrightarrow> Q st' \<and> myQueue st' = [])"
proof (rule drain.raw_induct[where P = "\<lambda>pix pred connect sz st y.
         (\<forall>a b. Q a \<longrightarrow> drain_step pix pred connect sz a = Inr b \<longrightarrow> Q b) \<longrightarrow> Q st \<longrightarrow>
         (\<forall>st'. y = Inr st' \<longrightarrow> Q st' \<and> myQueue st' = [])", OF _ assms], goal_cases)
  case (1 d pix pred connect sz st y)
  show ?case
  proof (cases "myQueue st = []")
    case True
    with 1(2) show ?thesis by auto
  next
    case False
    show ?thesis
    proof (cases "drain_step pix pred connect sz st")
      case (Inl e)
      with False 1(2) show ?thesis by auto
    next
      case (Inr st1)
      with False 1(2) have "d pix pred connect sz st1 = Some y" by simp
      then have "(\<forall>a b. Q a \<longrightarrow> drain_step pix pred connect sz a = Inr b \<longrightarrow> Q b) \<longrightarrow> Q st1 \<longrightarrow>
         (\<forall>st'. y = Inr st' \<longrightarrow> Q st' \<and> myQueue st' = [])" by (rule 1(1))
      with Inr show ?thesis by blast
    qed
  qed
qed

lemma drain_preserves:
  assumes "drain pix pred connect sz st = Some (Inr st')" "Q st"
    and "\<And>st st'. Q st \<Longrightarrow> drain_step pix pred connect sz st = Inr st' \<Longrightarrow> Q st'"
  shows "Q st' \<and> myQueue st' = []"
  using drain_preserves_aux[OF assms(1), of Q] assms(2,3) by blast

lemma drain_error_aux:
  assumes "drain pix pred connect sz st = Some y"
  shows "\<forall>e. y = Inl e \<longrightarrow> (\<exists>st0. drain_step pix pred connect sz st0 = Inl e)"
proof (rule drain.raw_induct[where P = "\<lambda>pix pred connect sz st y.
         \<forall>e. y = Inl e \<longrightarrow> (\<exists>st0. drain_step pix pred connect sz st0 = Inl e)", OF _ assms], goal_cases)
  case (1 d pix pred connect sz st y)
  show ?case
  proof (cases "myQueue st = []")
    case True
    with 1(2) show ?thesis by auto
  next
    case False
    show ?thesis
    proof (cases "drain_step pix pred connect sz st")
      case (Inl e)
      with False 1(2) show ?thesis by auto
    next
      case (Inr st1)
      with False 1(2) have "d pix pred connect sz st1 = Some y" by simp
      then show ?thesis by (rule 1(1))
    qed
  qed
qed

lemma drain_error:
  assumes "drain pix pred connect sz st = Some (Inl e)"
  shows "\<exists>st0. drain_step pix pred connect sz st0 = Inl e"
  using drain_error_aux[OF assms] by blast

subsection \<open>The steps of the finder on a grid that fits\<close>

lemma push_and_label_valid:
  assumes "fits sz" "grid_ok sz (labelStorage st)" "IsPixelPosValid sz p"
  shows "\<exists>st'. push_and_label p st = Inr st' \<and> labelled_step sz p st st'"
proof -
  from set_label_valid[OF assms, of "currentLabel st"] obtain g' where
    g': "set_label (labelStorage st) (fst p) (snd p) (currentLabel st) = Inr g'"
        "grid_ok sz g'" "label_at sz g' = (label_at sz (labelStorage st))(p := currentLabel st)"
    by blast
  then show ?thesis
    by (simp add: push_and_label_def labelled_step_def lab_def)
qed

lemma visit_valid:
  assumes "fits sz" "supported pix pred sz" "grid_ok sz (labelStorage st)"
  shows "visit pix pred sz q st =
           (if q \<in> foreground pix pred sz \<and> lab sz st q = NOLABEL
            then push_and_label q st else Inr st)"
proof (cases "IsPixelPosValid sz q")
  case False
  then show ?thesis by (simp add: visit_def foreground_def)
next
  case True
  with assms(2) obtain v b where vb: "pix (nat (fst q)) (nat (snd q)) = Some v" "pred v = Inr b"
    unfolding supported_def by blast
  have g: "get_label (labelStorage st) (fst q) (snd q) = Inr (lab sz st q)"
    using get_label_valid[OF assms(1,3) True] by (simp add: lab_def)
  show ?thesis
    using True vb g by (simp add: visit_def foreground_def is_foreground_def)
qed

lemma foreground_valid: "p \<in> foreground pix pred sz \<Longrightarrow> IsPixelPosValid sz p"
  by (simp add: foreground_def)

lemma lab_invalid: "\<not> IsPixelPosValid sz p \<Longrightarrow> lab sz st p = NOLABEL"
  by (simp add: lab_def label_at_def)

lemma valid_set_eq:
  "{p. IsPixelPosValid sz p} = {0..<fst sz} \<times> {0..<snd sz}"
  by (auto simp: IsPixelPosValid_def)

lemma finite_valid: "finite {p. IsPixelPosValid sz p}"
  by (simp add: valid_set_eq)

lemma card_valid: "fits sz \<Longrightarrow> int (card {p. IsPixelPosValid sz p}) = fst sz * snd sz"
  by (simp add: valid_set_eq card_cartesian_product fits_def)

subsection \<open>The basic invariant\<close>

lemma labelStart_eq: "labelStart = INT_MIN + 1"
  by (simp add: labelStart_def NOLABEL_def INT_MIN_def wrap32_def)

lemma labelStart_gt: "NOLABEL < labelStart"
  by (simp add: labelStart_eq NOLABEL_def)

lemma wf_drain_order: "wf (drain_order sz)"
  unfolding drain_order_def by (intro wf_inv_image wf_lex_prod wf_less_than)

lemma basic_inv_labelled:
  assumes "basic_inv F sz st" "labelled_step sz q st st'" "q \<in> F" 
  shows "basic_inv F sz st'"
  using assms labelStart_gt
  by (auto simp: basic_inv_def labelled_step_def)

lemma unlabelled_labelled:
  assumes "labelled_step sz q st st'" "IsPixelPosValid sz q" "lab sz st q = NOLABEL"
    "currentLabel st \<noteq> NOLABEL"
  shows "unlabelled sz st' < unlabelled sz st"
proof -
  let ?U = "{p. IsPixelPosValid sz p \<and> lab sz st p = NOLABEL}"
  have "{p. IsPixelPosValid sz p \<and> lab sz st' p = NOLABEL} = ?U - {q}"
    using assms by (auto simp: labelled_step_def)
  moreover have "finite ?U" using finite_valid[of sz] by simp
  moreover have "q \<in> ?U" using assms by simp
  ultimately show ?thesis
    unfolding unlabelled_def by (metis card_Diff1_less)
qed

lemma seeds_bounded:
  assumes "fits sz" "basic_inv F sz st"
  shows "int (length (seedLog st)) \<le> fst sz * snd sz"
proof -
  have "IsPixelPosValid sz s" if "s \<in> set (seedLog st)" for s
  proof -
    from that assms(2) have "lab sz st s \<noteq> NOLABEL" by (simp add: basic_inv_def)
    then show ?thesis using lab_invalid by blast
  qed
  then have "set (seedLog st) \<subseteq> {p. IsPixelPosValid sz p}" by blast
  then have "card (set (seedLog st)) \<le> card {p. IsPixelPosValid sz p}"
    by (intro card_mono finite_valid)
  moreover have "card (set (seedLog st)) = length (seedLog st)"
    using assms(2) by (simp add: basic_inv_def distinct_card)
  ultimately show ?thesis using card_valid[OF assms(1)] by linarith
qed

subsection \<open>Connectivity\<close>

lemma lab_myQueue_update [simp]: "lab sz (st\<lparr>myQueue := q\<rparr>) = lab sz st"
  by (simp add: lab_def)

lemma lab_seedLog_update [simp]: "lab sz (st\<lparr>seedLog := q\<rparr>) = lab sz st"
  by (simp add: lab_def)

lemma lab_currentLabel_update [simp]: "lab sz (st\<lparr>currentLabel := q\<rparr>) = lab sz st"
  by (simp add: lab_def)

lemma conn_visitI:
  assumes "\<And>p q. lab sz st p \<noteq> NOLABEL \<Longrightarrow> lab sz st p \<noteq> currentLabel st \<Longrightarrow> (p, q) \<in> E \<Longrightarrow>
             lab sz st q = lab sz st p"
    and "\<And>p q. lab sz st p \<noteq> NOLABEL \<Longrightarrow> lab sz st p \<noteq> currentLabel st \<Longrightarrow>
             lab sz st q = lab sz st p \<Longrightarrow> (p, q) \<in> E\<^sup>*"
    and "\<And>p. lab sz st p = currentLabel st \<Longrightarrow> (s, p) \<in> E\<^sup>*"
    and "\<And>p q. lab sz st p = currentLabel st \<Longrightarrow> p \<notin> set (myQueue st) \<Longrightarrow> (p, q) \<in> E \<Longrightarrow>
             (p = f \<longrightarrow> q \<in> P) \<Longrightarrow> lab sz st q = currentLabel st"
  shows "conn_visit E sz s f P st"
  unfolding conn_visit_def using assms by blast

lemma conn_visitD:
  assumes "conn_visit E sz s f P st"
  shows "\<And>p q. lab sz st p \<noteq> NOLABEL \<Longrightarrow> lab sz st p \<noteq> currentLabel st \<Longrightarrow> (p, q) \<in> E \<Longrightarrow>
             lab sz st q = lab sz st p"
    and "\<And>p q. lab sz st p \<noteq> NOLABEL \<Longrightarrow> lab sz st p \<noteq> currentLabel st \<Longrightarrow>
             lab sz st q = lab sz st p \<Longrightarrow> (p, q) \<in> E\<^sup>*"
    and "\<And>p. lab sz st p = currentLabel st \<Longrightarrow> (s, p) \<in> E\<^sup>*"
    and "\<And>p q. lab sz st p = currentLabel st \<Longrightarrow> p \<notin> set (myQueue st) \<Longrightarrow> (p, q) \<in> E \<Longrightarrow>
             (p = f \<longrightarrow> q \<in> P) \<Longrightarrow> lab sz st q = currentLabel st"
  using assms unfolding conn_visit_def by blast+

lemma conn_scanI:
  assumes "\<And>p q. lab sz st p \<noteq> NOLABEL \<Longrightarrow> (p, q) \<in> E \<Longrightarrow> lab sz st q = lab sz st p"
    and "\<And>p q. lab sz st p \<noteq> NOLABEL \<Longrightarrow> lab sz st q = lab sz st p \<Longrightarrow> (p, q) \<in> E\<^sup>*"
  shows "conn_scan E sz st"
  unfolding conn_scan_def using assms by blast

lemma conn_scanD:
  assumes "conn_scan E sz st"
  shows "\<And>p q. lab sz st p \<noteq> NOLABEL \<Longrightarrow> (p, q) \<in> E \<Longrightarrow> lab sz st q = lab sz st p"
    and "\<And>p q. lab sz st p \<noteq> NOLABEL \<Longrightarrow> lab sz st q = lab sz st p \<Longrightarrow> (p, q) \<in> E\<^sup>*"
  using assms unfolding conn_scan_def by blast+

lemma conn_visit_labelled:
  assumes inv: "conn_visit E sz s f P st" and step: "labelled_step sz q st st'"
    and q: "lab sz st q = NOLABEL" "(f, q) \<in> E"
    and f: "lab sz st f = currentLabel st" and L: "currentLabel st \<noteq> NOLABEL"
  shows "conn_visit E sz s f (insert q P) st'"
proof -
  let ?l = "lab sz st" and ?L = "currentLabel st"
  from step have l': "lab sz st' = ?l(q := ?L)" and L': "currentLabel st' = ?L"
    and Q': "myQueue st' = myQueue st @ [q]"
    by (simp_all add: labelled_step_def)
  note c = conn_visitD[OF inv]
  have "(s, f) \<in> E\<^sup>*" using c(3) f by blast
  from this q(2) have sq: "(s, q) \<in> E\<^sup>*" by (rule rtrancl_into_rtrancl)
  show ?thesis
  proof (rule conn_visitI, unfold l' L' Q')
    fix p r
    assume a: "(?l(q := ?L)) p \<noteq> NOLABEL" "(?l(q := ?L)) p \<noteq> ?L" "(p, r) \<in> E"
    then have p: "p \<noteq> q" "?l p \<noteq> NOLABEL" "?l p \<noteq> ?L" by (auto split: if_splits)
    with a(3) have "?l r = ?l p" using c(1)[of p r] by blast
    with p q(1) show "(?l(q := ?L)) r = (?l(q := ?L)) p" by auto
  next
    fix p r
    assume a: "(?l(q := ?L)) p \<noteq> NOLABEL" "(?l(q := ?L)) p \<noteq> ?L"
      "(?l(q := ?L)) r = (?l(q := ?L)) p"
    then have p: "p \<noteq> q" "?l p \<noteq> NOLABEL" "?l p \<noteq> ?L" by (auto split: if_splits)
    with a(3) have "?l r = ?l p" by (auto split: if_splits)
    with p show "(p, r) \<in> E\<^sup>*" using c(2)[of p r] by blast
  next
    fix p
    assume "(?l(q := ?L)) p = ?L"
    then show "(s, p) \<in> E\<^sup>*" using sq c(3)[of p] by (cases "p = q") auto
  next
    fix p r
    assume a: "(?l(q := ?L)) p = ?L" "p \<notin> set (myQueue st @ [q])" "(p, r) \<in> E"
       "p = f \<longrightarrow> r \<in> insert q P"
    show "(?l(q := ?L)) r = ?L"
    proof (cases "r = q")
      case True
      then show ?thesis by simp
    next
      case False
      from a have "p \<noteq> q" "?l p = ?L" "p \<notin> set (myQueue st)" by (auto split: if_splits)
      moreover from a(4) False have "p = f \<longrightarrow> r \<in> P" by simp
      ultimately have "?l r = ?L" using a(3) c(4)[of p r] by blast
      with False show ?thesis by simp
    qed
  qed
qed

lemma conn_visit_skip:
  assumes inv: "conn_visit E sz s f P st" and "sym E"
    and f: "lab sz st f = currentLabel st"
    and q: "(f, q) \<in> E \<Longrightarrow> lab sz st q \<noteq> NOLABEL"
  shows "conn_visit E sz s f (insert q P) st"
proof -
  let ?l = "lab sz st" and ?L = "currentLabel st"
  note c = conn_visitD[OF inv]
  have fq: "?l q = ?L" if "(f, q) \<in> E"
  proof (rule ccontr)
    assume n: "?l q \<noteq> ?L"
    from \<open>sym E\<close> that have "(q, f) \<in> E" by (rule symD)
    with q[OF that] n have "?l f = ?l q" using c(1)[of q f] by blast
    with f n show False by simp
  qed
  show ?thesis
  proof (rule conn_visitI)
    fix p r
    assume a: "?l p = ?L" "p \<notin> set (myQueue st)" "(p, r) \<in> E" "p = f \<longrightarrow> r \<in> insert q P"
    show "?l r = ?L"
    proof (cases "p = f \<and> r = q")
      case True
      with a(3) fq show ?thesis by blast
    next
      case False
      with a(4) have "p = f \<longrightarrow> r \<in> P" by blast
      with a(1-3) show ?thesis using c(4)[of p r] by blast
    qed
  qed (use c in blast)+
qed

lemma conn_visit_pop:
  assumes "conn_visit E sz s f0 UNIV st" "myQueue st = f # Q"
  shows "conn_visit E sz s f {} (st\<lparr>myQueue := Q\<rparr>)"
proof -
  note c = conn_visitD[OF assms(1)]
  have L: "currentLabel (st\<lparr>myQueue := Q\<rparr>) = currentLabel st"
    and Q: "myQueue (st\<lparr>myQueue := Q\<rparr>) = Q" by simp_all
  show ?thesis
  proof (rule conn_visitI, unfold lab_myQueue_update L Q)
    fix p r
    assume a: "lab sz st p = currentLabel st" "p \<notin> set Q" "(p, r) \<in> E" "p = f \<longrightarrow> r \<in> {}"
    then have "p \<notin> set (myQueue st)" using assms(2) by auto
    with a(1,3) show "lab sz st r = currentLabel st"
      using c(4)[of p r] by blast
  qed (use c in blast)+
qed

lemma conn_visit_done:
  assumes "conn_visit E sz s f P st" "\<And>q. (f, q) \<in> E \<Longrightarrow> q \<in> P"
  shows "conn_visit E sz s f' UNIV st"
proof -
  note c = conn_visitD[OF assms(1)]
  show ?thesis
  proof (rule conn_visitI)
    fix p r
    assume a: "lab sz st p = currentLabel st" "p \<notin> set (myQueue st)" "(p, r) \<in> E"
    with assms(2) have "p = f \<longrightarrow> r \<in> P" by blast
    with a show "lab sz st r = currentLabel st" using c(4)[of p r] by blast
  qed (use c in blast)+
qed

lemma conn_visit_seed:
  assumes "conn_scan E sz st" "\<And>p. lab sz st p \<noteq> currentLabel st"
    and step: "labelled_step sz s st st'" and s: "lab sz st s = NOLABEL"
  shows "conn_visit E sz s f UNIV st'"
proof -
  let ?l = "lab sz st" and ?L = "currentLabel st"
  from step have l': "lab sz st' = ?l(s := ?L)" and L': "currentLabel st' = ?L"
    and Q': "myQueue st' = myQueue st @ [s]"
    by (simp_all add: labelled_step_def)
  note c = conn_scanD[OF assms(1)]
  show ?thesis
  proof (rule conn_visitI, unfold l' L' Q')
    fix p r
    assume a: "(?l(s := ?L)) p \<noteq> NOLABEL" "(?l(s := ?L)) p \<noteq> ?L" "(p, r) \<in> E"
    then have p: "p \<noteq> s" "?l p \<noteq> NOLABEL" by (auto split: if_splits)
    with a(3) have "?l r = ?l p" using c(1)[of p r] by blast
    with p s show "(?l(s := ?L)) r = (?l(s := ?L)) p" by auto
  next
    fix p r
    assume a: "(?l(s := ?L)) p \<noteq> NOLABEL" "(?l(s := ?L)) p \<noteq> ?L"
      "(?l(s := ?L)) r = (?l(s := ?L)) p"
    then have p: "p \<noteq> s" "?l p \<noteq> NOLABEL" by (auto split: if_splits)
    with a(2,3) have "?l r = ?l p" by (auto split: if_splits)
    with p show "(p, r) \<in> E\<^sup>*" using c(2)[of p r] by blast
  next
    fix p
    assume "(?l(s := ?L)) p = ?L"
    then show "(s, p) \<in> E\<^sup>*" using assms(2)[of p] by (cases "p = s") auto
  next
    fix p r
    assume "(?l(s := ?L)) p = ?L" "p \<notin> set (myQueue st @ [s])"
    then show "(?l(s := ?L)) r = ?L" using assms(2)[of p] by (cases "p = s") auto
  qed
qed

lemma conn_scan_finish:
  assumes inv: "conn_visit E sz s f UNIV st" and "myQueue st = []" "sym E"
  shows "conn_scan E sz st"
proof -
  let ?l = "lab sz st" and ?L = "currentLabel st"
  note c = conn_visitD[OF inv]
  have c4: "?l r = ?L" if "?l p = ?L" "(p, r) \<in> E" for p r
    using c(4)[of p r] that assms(2) by simp
  have symr: "sym (E\<^sup>*)" using \<open>sym E\<close> by (rule sym_rtrancl)
  show ?thesis
  proof (rule conn_scanI)
    fix p r
    assume "?l p \<noteq> NOLABEL" "(p, r) \<in> E"
    then show "?l r = ?l p"
      using c(1)[of p r] c4[of p r] by (cases "?l p = ?L") auto
  next
    fix p r
    assume a: "?l p \<noteq> NOLABEL" "?l r = ?l p"
    show "(p, r) \<in> E\<^sup>*"
    proof (cases "?l p = ?L")
      case True
      with a have "(s, p) \<in> E\<^sup>*" "(s, r) \<in> E\<^sup>*" by (auto intro: c(3))
      moreover from symr this(1) have "(p, s) \<in> E\<^sup>*" by (rule symD)
      ultimately show ?thesis by (meson rtrancl_trans)
    next
      case False
      with a show ?thesis using c(2)[of p r] by blast
    qed
  qed
qed

subsection \<open>The logs\<close>

lemma log_inv_labelled:
  assumes inv: "log_inv sz st" and step: "labelled_step sz q st st'"
    and q: "lab sz st q = NOLABEL" and L: "currentLabel st \<noteq> NOLABEL"
  shows "log_inv sz st'"
proof -
  let ?l = "lab sz st" and ?L = "currentLabel st"
  from step have l': "lab sz st' = ?l(q := ?L)"
    and G': "pushLog st' = pushLog st @ [(q, ?L)]"
    by (simp_all add: labelled_step_def)
  from inv have d: "distinct (map fst (pushLog st))"
    and s: "set (pushLog st) = {(p, ?l p) | p. ?l p \<noteq> NOLABEL}"
    by (simp_all add: log_inv_def)
  have "q \<notin> fst ` set (pushLog st)" unfolding s using q by force
  with d have d': "distinct (map fst (pushLog st @ [(q, ?L)]))" by simp
  have s': "set (pushLog st @ [(q, ?L)]) = {(p, (?l(q := ?L)) p) | p. (?l(q := ?L)) p \<noteq> NOLABEL}"
    unfolding set_append s using q L by (auto split: if_splits)
  show ?thesis unfolding log_inv_def l' G' using d' s' by blast
qed

lemma seed_invD:
  assumes "seed_inv F sz pos st"
  shows "\<And>k. k < length (seedLog st) \<Longrightarrow> lab sz st (seedLog st ! k) = labelStart + int k"
    and "\<And>k p. k < length (seedLog st) \<Longrightarrow> lab sz st p = labelStart + int k \<Longrightarrow>
            \<not> rm_less p (seedLog st ! k)"
    and "sorted_wrt rm_less (seedLog st)"
    and "\<And>p. p \<in> F \<Longrightarrow> rm_less p pos \<Longrightarrow> lab sz st p \<noteq> NOLABEL"
  using assms unfolding seed_inv_def by blast+

lemma seed_invI:
  assumes "\<And>k. k < length (seedLog st) \<Longrightarrow> lab sz st (seedLog st ! k) = labelStart + int k"
    and "\<And>k p. k < length (seedLog st) \<Longrightarrow> lab sz st p = labelStart + int k \<Longrightarrow>
            \<not> rm_less p (seedLog st ! k)"
    and "sorted_wrt rm_less (seedLog st)"
    and "\<And>p. p \<in> F \<Longrightarrow> rm_less p pos \<Longrightarrow> lab sz st p \<noteq> NOLABEL"
  shows "seed_inv F sz pos st"
  unfolding seed_inv_def using assms by blast

lemma seed_inv_labelled:
  assumes inv: "seed_inv F sz pos st" and step: "labelled_step sz q st st'"
    and q: "lab sz st q = NOLABEL" "q \<in> F"
    and last: "seedLog st \<noteq> []" "last (seedLog st) = pos"
    and L: "currentLabel st + 1 = labelStart + int (length (seedLog st))"
  shows "seed_inv F sz pos st'"
proof -
  let ?l = "lab sz st" and ?L = "currentLabel st" and ?S = "seedLog st"
  from step have l': "lab sz st' = ?l(q := ?L)" and S': "seedLog st' = ?S"
    by (simp_all add: labelled_step_def)
  note c = seed_invD[OF inv]
  have "0 < length ?S" using last(1) by simp
  then have Lne: "?L \<noteq> NOLABEL" using L labelStart_gt by linarith
  have nq: "\<not> rm_less q pos" using c(4)[OF q(2)] q(1) by blast
  show ?thesis
  proof (rule seed_invI, unfold l' S')
    fix k assume k: "k < length ?S"
    then have "?l (?S ! k) = labelStart + int k" by (rule c(1))
    moreover from this have "?S ! k \<noteq> q" using q(1) labelStart_gt by auto
    ultimately show "(?l(q := ?L)) (?S ! k) = labelStart + int k" by simp
  next
    fix k p assume k: "k < length ?S" and p: "(?l(q := ?L)) p = labelStart + int k"
    show "\<not> rm_less p (?S ! k)"
    proof (cases "p = q")
      case True
      with p have "?L = labelStart + int k" by simp
      with L k have "k = length ?S - 1" by linarith
      then have "?S ! k = pos" using last by (simp add: last_conv_nth)
      with nq True show ?thesis by simp
    next
      case False
      with p have "?l p = labelStart + int k" by simp
      with k show ?thesis by (rule c(2))
    qed
  next
    show "sorted_wrt rm_less ?S" by (rule c(3))
  next
    fix p assume "p \<in> F" "rm_less p pos"
    then have "?l p \<noteq> NOLABEL" by (rule c(4))
    then show "(?l(q := ?L)) p \<noteq> NOLABEL" using Lne by simp
  qed
qed

lemma seed_inv_seed:
  assumes inv: "seed_inv F sz pos st" and before: "\<And>s. s \<in> set (seedLog st) \<Longrightarrow> rm_less s pos"
    and step: "labelled_step sz pos (st\<lparr>seedLog := seedLog st @ [pos]\<rparr>) st'"
    and q: "lab sz st pos = NOLABEL"
    and L: "currentLabel st = labelStart + int (length (seedLog st))"
    and fresh: "\<And>p. lab sz st p \<noteq> currentLabel st"
  shows "seed_inv F sz pos st'"
proof -
  let ?l = "lab sz st" and ?L = "currentLabel st" and ?S = "seedLog st"
  from step have l': "lab sz st' = ?l(pos := ?L)" and S': "seedLog st' = ?S @ [pos]"
    by (simp_all add: labelled_step_def)
  note c = seed_invD[OF inv]
  have Lne: "?L \<noteq> NOLABEL" using L labelStart_gt by linarith
  show ?thesis
  proof (rule seed_invI, unfold l' S')
    fix k assume k: "k < length (?S @ [pos])"
    show "(?l(pos := ?L)) ((?S @ [pos]) ! k) = labelStart + int k"
    proof (cases "k < length ?S")
      case True
      then have e: "?l (?S ! k) = labelStart + int k" by (rule c(1))
      then have "?S ! k \<noteq> pos" using q labelStart_gt by auto
      with e True show ?thesis by (simp add: nth_append)
    next
      case False
      with k have "k = length ?S" by simp
      then show ?thesis using L by (simp add: nth_append)
    qed
  next
    fix k p assume k: "k < length (?S @ [pos])" and p: "(?l(pos := ?L)) p = labelStart + int k"
    show "\<not> rm_less p ((?S @ [pos]) ! k)"
    proof (cases "k < length ?S")
      case True
      with L have "?L \<noteq> labelStart + int k" by simp
      with p have "p \<noteq> pos" "?l p = labelStart + int k" by (auto split: if_splits)
      with True have "\<not> rm_less p (?S ! k)" using c(2)[of k p] by blast
      with True show ?thesis by (simp add: nth_append)
    next
      case False
      with k have ke: "k = length ?S" by simp
      with p L have "(?l(pos := ?L)) p = ?L" by simp
      with fresh[of p] have "p = pos" by (auto split: if_splits)
      with ke show ?thesis by (simp add: rm_less_def)
    qed
  next
    show "sorted_wrt rm_less (?S @ [pos])"
      using c(3) before by (simp add: sorted_wrt_append)
  next
    fix p assume "p \<in> F" "rm_less p pos"
    then have "?l p \<noteq> NOLABEL" by (rule c(4))
    then show "(?l(pos := ?L)) p \<noteq> NOLABEL" using Lne by simp
  qed
qed

lemma basic_inv_seed:
  assumes inv: "basic_inv F sz st"
    and step: "labelled_step sz pos (st\<lparr>seedLog := seedLog st @ [pos]\<rparr>) st'"
    and q: "pos \<in> F" "lab sz st pos = NOLABEL"
  shows "basic_inv F sz st'"
proof -
  let ?l = "lab sz st" and ?L = "currentLabel st" and ?S = "seedLog st"
  from step have l': "lab sz st' = ?l(pos := ?L)" and S': "seedLog st' = ?S @ [pos]"
    and Q': "myQueue st' = myQueue st @ [pos]" and L': "currentLabel st' = ?L"
    and g': "grid_ok sz (labelStorage st')"
    by (simp_all add: labelled_step_def)
  from inv have b: "\<And>p. ?l p \<noteq> NOLABEL \<Longrightarrow> p \<in> F \<and> labelStart \<le> ?l p \<and> ?l p \<le> ?L"
    "\<And>p. p \<in> set (myQueue st) \<Longrightarrow> ?l p = ?L" "distinct ?S"
    "\<And>s. s \<in> set ?S \<Longrightarrow> ?l s \<noteq> NOLABEL" "labelStart \<le> ?L"
    "?L \<le> labelStart + int (length ?S)"
    unfolding basic_inv_def by blast+
  have Lne: "?L \<noteq> NOLABEL" using b(5) labelStart_gt by linarith
  have "pos \<notin> set ?S" using b(4) q(2) by blast
  with b(3) have d: "distinct (?S @ [pos])" by simp
  show ?thesis
    unfolding basic_inv_def l' S' Q' L'
  proof (intro conjI allI ballI impI)
    show "grid_ok sz (labelStorage st')" by (rule g')
  next
    fix p assume "(?l(pos := ?L)) p \<noteq> NOLABEL"
    then show "p \<in> F" "labelStart \<le> (?l(pos := ?L)) p" "(?l(pos := ?L)) p \<le> ?L"
      using b(1)[of p] q(1) b(5) by (auto split: if_splits)
  next
    fix p assume "p \<in> set (myQueue st @ [pos])"
    then show "(?l(pos := ?L)) p = ?L" using b(2)[of p] by auto
  next
    show "distinct (?S @ [pos])" by (rule d)
  next
    fix s assume "s \<in> set (?S @ [pos])"
    then show "(?l(pos := ?L)) s \<noteq> NOLABEL" using b(4)[of s] Lne by auto
  next
    show "labelStart \<le> ?L" by (rule b(5))
  next
    show "?L \<le> labelStart + int (length (?S @ [pos]))" using b(6) by simp
  qed
qed

subsection \<open>The queue loop\<close>

lemma basic_invD:
  assumes "basic_inv F sz st"
  shows "grid_ok sz (labelStorage st)"
    and "\<And>p. lab sz st p \<noteq> NOLABEL \<Longrightarrow> p \<in> F"
    and "\<And>p. lab sz st p \<noteq> NOLABEL \<Longrightarrow> labelStart \<le> lab sz st p"
    and "\<And>p. lab sz st p \<noteq> NOLABEL \<Longrightarrow> lab sz st p \<le> currentLabel st"
    and "\<And>p. p \<in> set (myQueue st) \<Longrightarrow> lab sz st p = currentLabel st"
    and "distinct (seedLog st)"
    and "\<And>s. s \<in> set (seedLog st) \<Longrightarrow> lab sz st s \<noteq> NOLABEL"
    and "labelStart \<le> currentLabel st"
    and "currentLabel st \<le> labelStart + int (length (seedLog st))"
  using assms unfolding basic_inv_def by blast+

lemma visit_step:
  assumes fits: "fits sz" and sup: "supported pix pred sz"
    and F: "F = foreground pix pred sz" and E: "E = edges connect F" and sym: "sym E"
    and inv: "visit_inv F E sz pos f P st" and f: "lab sz st f = currentLabel st"
    and q: "q \<in> set (connect f)"
  shows "\<exists>st'. visit pix pred sz q st = Inr st' \<and> visit_inv F E sz pos f (insert q P) st' \<and>
           lab sz st' f = currentLabel st' \<and> (unlabelled sz st' < unlabelled sz st \<or> st' = st)"
proof -
  from inv have b: "basic_inv F sz st" and c: "conn_visit E sz pos f P st"
    and g: "log_inv sz st" and s: "seed_inv F sz pos st"
    and l: "seedLog st \<noteq> []" "last (seedLog st) = pos"
    and L: "currentLabel st + 1 = labelStart + int (length (seedLog st))"
    unfolding visit_inv_def by blast+
  note bd = basic_invD[OF b]
  have Lne: "currentLabel st \<noteq> NOLABEL" using bd(8) labelStart_gt by linarith
  have fF: "f \<in> F" using bd(2)[of f] f Lne by simp
  show ?thesis
  proof (cases "q \<in> F \<and> lab sz st q = NOLABEL")
    case True
    then have v: "IsPixelPosValid sz q" unfolding F using foreground_valid by blast
    from push_and_label_valid[OF fits bd(1) v] obtain st' where
      st': "push_and_label q st = Inr st'" "labelled_step sz q st st'" by blast
    have vis: "visit pix pred sz q st = Inr st'"
      using True st'(1) by (simp add: visit_valid[OF fits sup bd(1)] F)
    have fq: "(f, q) \<in> E" using fF True q by (simp add: E edges_def)
    have "basic_inv F sz st'" using b st'(2) True by (blast intro: basic_inv_labelled)
    moreover have "conn_visit E sz pos f (insert q P) st'"
      using c st'(2) True fq f Lne by (blast intro: conn_visit_labelled)
    moreover have "log_inv sz st'" using g st'(2) True Lne by (blast intro: log_inv_labelled)
    moreover have "seed_inv F sz pos st'"
      using s st'(2) True l L by (blast intro: seed_inv_labelled)
    moreover have "seedLog st' = seedLog st" "currentLabel st' = currentLabel st"
      using st'(2) by (simp_all add: labelled_step_def)
    ultimately have "visit_inv F E sz pos f (insert q P) st'"
      using l L unfolding visit_inv_def by simp
    moreover have "lab sz st' f = currentLabel st'"
      using st'(2) f by (simp add: labelled_step_def)
    moreover have "unlabelled sz st' < unlabelled sz st"
      using st'(2) v True Lne by (blast intro: unlabelled_labelled)
    ultimately show ?thesis using vis by blast
  next
    case False
    then have vis: "visit pix pred sz q st = Inr st"
      unfolding visit_valid[OF fits sup bd(1)] F by auto
    have "lab sz st q \<noteq> NOLABEL" if "(f, q) \<in> E"
      using that False by (auto simp: E edges_def)
    with c sym f have "conn_visit E sz pos f (insert q P) st" by (rule conn_visit_skip)
    with inv have "visit_inv F E sz pos f (insert q P) st" unfolding visit_inv_def by blast
    with vis f show ?thesis by blast
  qed
qed

lemma unlabelled_myQueue_update [simp]: "unlabelled sz (st\<lparr>myQueue := q\<rparr>) = unlabelled sz st"
  by (simp add: unlabelled_def)

lemma basic_inv_pop:
  assumes "basic_inv F sz st" "myQueue st = f # Q"
  shows "basic_inv F sz (st\<lparr>myQueue := Q\<rparr>)"
  using assms unfolding basic_inv_def by simp

lemma log_inv_myQueue_update [simp]: "log_inv sz (st\<lparr>myQueue := q\<rparr>) = log_inv sz st"
  by (simp add: log_inv_def)

lemma seed_inv_myQueue_update [simp]: "seed_inv F sz pos (st\<lparr>myQueue := q\<rparr>) = seed_inv F sz pos st"
  by (simp add: seed_inv_def)

lemma drain_step_inv:
  assumes fits: "fits sz" and sup: "supported pix pred sz"
    and F: "F = foreground pix pred sz" and E: "E = edges connect F" and sym: "sym E"
    and inv: "visit_inv F E sz pos pos UNIV st" and ne: "myQueue st \<noteq> []"
  shows "\<exists>st'. drain_step pix pred connect sz st = Inr st' \<and> visit_inv F E sz pos pos UNIV st' \<and>
           (st', st) \<in> drain_order sz"
proof -
  from ne obtain f Q where fQ: "myQueue st = f # Q" by (cases "myQueue st") auto
  let ?st1 = "st\<lparr>myQueue := Q\<rparr>"
  let ?P = "\<lambda>A s. visit_inv F E sz pos f A s \<and> lab sz s f = currentLabel s \<and>
              (s, st) \<in> drain_order sz"
  from inv have b: "basic_inv F sz st" and c: "conn_visit E sz pos pos UNIV st"
    and g: "log_inv sz st" and s: "seed_inv F sz pos st"
    and l: "seedLog st \<noteq> []" "last (seedLog st) = pos"
    and L: "currentLabel st + 1 = labelStart + int (length (seedLog st))"
    unfolding visit_inv_def by blast+
  have f: "lab sz st f = currentLabel st" using basic_invD(5)[OF b, of f] fQ by simp
  have "visit_inv F E sz pos f {} ?st1"
    unfolding visit_inv_def
    using basic_inv_pop[OF b fQ] conn_visit_pop[OF c fQ] g s l L by simp
  moreover have "(?st1, st) \<in> drain_order sz" using fQ by (simp add: drain_order_def)
  ultimately have P0: "?P {} ?st1" using f by simp
  have "\<exists>s'. for_loop (connect f) (visit pix pred sz) ?st1 = Inr s' \<and> ?P ({} \<union> set (connect f)) s'"
  proof (rule for_loop_rule[where P = ?P, OF P0])
    fix q A s assume q: "q \<in> set (connect f)" and P: "?P A s"
    from visit_step[OF fits sup F E sym _ _ q, of pos A s] P obtain s' where
      s': "visit pix pred sz q s = Inr s'" "visit_inv F E sz pos f (insert q A) s'"
        "lab sz s' f = currentLabel s'" "unlabelled sz s' < unlabelled sz s \<or> s' = s"
      by blast
    from s'(4) P have "(s', st) \<in> drain_order sz"
      by (auto simp: drain_order_def)
    with s' show "\<exists>s'. visit pix pred sz q s = Inr s' \<and> ?P (insert q A) s'" by blast
  qed
  then obtain s' where s': "for_loop (connect f) (visit pix pred sz) ?st1 = Inr s'"
    "visit_inv F E sz pos f (set (connect f)) s'" "(s', st) \<in> drain_order sz" by auto
  have "conn_visit E sz pos pos UNIV s'"
  proof (rule conn_visit_done)
    show "conn_visit E sz pos f (set (connect f)) s'" using s'(2) unfolding visit_inv_def by blast
    show "q \<in> set (connect f)" if "(f, q) \<in> E" for q using that by (simp add: E edges_def)
  qed
  with s'(2) have "visit_inv F E sz pos pos UNIV s'" unfolding visit_inv_def by blast
  moreover have "drain_step pix pred connect sz st = Inr s'"
    using s'(1) fQ by (simp add: drain_step_def)
  ultimately show ?thesis using s'(3) by blast
qed

lemma drain_inv:
  assumes fits: "fits sz" and sup: "supported pix pred sz"
    and F: "F = foreground pix pred sz" and E: "E = edges connect F" and sym: "sym E"
    and inv: "visit_inv F E sz pos pos UNIV st"
  shows "\<exists>st'. drain pix pred connect sz st = Some (Inr st') \<and> visit_inv F E sz pos pos UNIV st' \<and>
           myQueue st' = []"
  using wf_drain_order inv
proof (rule drain_total)
  fix st assume "visit_inv F E sz pos pos UNIV st" "myQueue st \<noteq> []"
  then show "\<exists>st'. drain_step pix pred connect sz st = Inr st' \<and>
               visit_inv F E sz pos pos UNIV st' \<and> (st', st) \<in> drain_order sz"
    by (rule drain_step_inv[OF fits sup F E sym])
qed

subsection \<open>The outer scan\<close>

lemma rm_less_next: "rm_less p (i, j + 1) \<longleftrightarrow> rm_less p (i, j) \<or> p = (i, j)"
  by (cases p) (auto simp: rm_less_def)

lemma rm_less_irrefl: "\<not> rm_less p p"
  by (simp add: rm_less_def)

lemma scan_pixel_valid:
  assumes "fits sz" "supported pix pred sz" "grid_ok sz (labelStorage st)" "IsPixelPosValid sz pos"
  shows "scan_pixel pix pred connect sz pos st =
     (if pos \<in> foreground pix pred sz then
        (if lab sz st pos = NOLABEL then
           (case push_and_label pos (st\<lparr>seedLog := seedLog st @ [pos]\<rparr>) of
              Inl e \<Rightarrow> Some (Inl e)
            | Inr st1 \<Rightarrow>
                (case drain pix pred connect sz st1 of
                   None \<Rightarrow> None
                 | Some (Inl e) \<Rightarrow> Some (Inl e)
                 | Some (Inr st2) \<Rightarrow>
                     Some (Inr (st2\<lparr>currentLabel := wrap32 (currentLabel st2 + 1)\<rparr>))))
         else
           (case drain pix pred connect sz st of
              None \<Rightarrow> None
            | Some (Inl e) \<Rightarrow> Some (Inl e)
            | Some (Inr st2) \<Rightarrow> Some (Inr st2)))
      else Some (Inr st))"
proof -
  from assms(2,4) obtain v b where vb: "pix (nat (fst pos)) (nat (snd pos)) = Some v" "pred v = Inr b"
    unfolding supported_def by blast
  have g: "get_label (labelStorage st) (fst pos) (snd pos) = Inr (lab sz st pos)"
    using get_label_valid[OF assms(1,3,4)] by (simp add: lab_def)
  show ?thesis
    using assms(4) vb g
    by (simp add: scan_pixel_def foreground_def is_foreground_def split: sum.split option.split)
qed

lemma sorted_last_greatest:
  assumes "sorted_wrt rm_less S" "S \<noteq> []" "s \<in> set S"
  shows "rm_less s (last S) \<or> s = last S"
proof -
  from assms(2) have S: "S = butlast S @ [last S]" by simp
  with assms(1) have "sorted_wrt rm_less (butlast S @ [last S])" by simp
  then have "\<forall>x \<in> set (butlast S). rm_less x (last S)" by (simp add: sorted_wrt_append)
  moreover from assms(3) S have "s \<in> set (butlast S) \<or> s = last S"
    by (metis Un_iff empty_iff empty_set set_ConsD set_append)
  ultimately show ?thesis by blast
qed

lemma scan_inv_skip:
  assumes inv: "scan_inv F E sz pos st" and lbl: "pos \<in> F \<Longrightarrow> lab sz st pos \<noteq> NOLABEL"
  shows "scan_inv F E sz (fst pos, snd pos + 1) st"
proof -
  from inv have s: "seed_inv F sz pos st" and b: "\<And>s. s \<in> set (seedLog st) \<Longrightarrow> rm_less s pos"
    unfolding scan_inv_def by blast+
  note c = seed_invD[OF s]
  have n: "rm_less p (fst pos, snd pos + 1) \<longleftrightarrow> rm_less p pos \<or> p = pos" for p
    using rm_less_next[of p "fst pos" "snd pos"] by simp
  have "seed_inv F sz (fst pos, snd pos + 1) st"
  proof (rule seed_invI)
    fix p assume "p \<in> F" "rm_less p (fst pos, snd pos + 1)"
    then show "lab sz st p \<noteq> NOLABEL" using c(4)[of p] lbl n by blast
  qed (use c in blast)+
  moreover have "\<forall>s \<in> set (seedLog st). rm_less s (fst pos, snd pos + 1)"
    using b n by blast
  ultimately show ?thesis using inv unfolding scan_inv_def by blast
qed

lemma drain_empty: "myQueue st = [] \<Longrightarrow> drain pix pred connect sz st = Some (Inr st)"
  by (subst drain.simps) simp

lemma log_inv_seedLog_update [simp]: "log_inv sz (st\<lparr>seedLog := q\<rparr>) = log_inv sz st"
  by (simp add: log_inv_def)

lemma conn_scan_seedLog_update [simp]: "conn_scan E sz (st\<lparr>seedLog := q\<rparr>) = conn_scan E sz st"
  by (simp add: conn_scan_def)

lemma conn_scan_currentLabel_update [simp]:
  "conn_scan E sz (st\<lparr>currentLabel := q\<rparr>) = conn_scan E sz st"
  by (simp add: conn_scan_def)

lemma log_inv_currentLabel_update [simp]: "log_inv sz (st\<lparr>currentLabel := q\<rparr>) = log_inv sz st"
  by (simp add: log_inv_def)

lemma seed_inv_currentLabel_update [simp]:
  "seed_inv F sz pos (st\<lparr>currentLabel := q\<rparr>) = seed_inv F sz pos st"
  by (simp add: seed_inv_def)

lemma scan_inv_seeded:
  assumes fits: "fits sz" and sym: "sym E"
    and inv: "visit_inv F E sz pos pos UNIV st" and Q: "myQueue st = []"
  shows "scan_inv F E sz (fst pos, snd pos + 1) (st\<lparr>currentLabel := wrap32 (currentLabel st + 1)\<rparr>)"
proof -
  let ?L = "currentLabel st" and ?S = "seedLog st"
  from inv have b: "basic_inv F sz st" and c: "conn_visit E sz pos pos UNIV st"
    and g: "log_inv sz st" and s: "seed_inv F sz pos st"
    and l: "?S \<noteq> []" "last ?S = pos"
    and L: "?L + 1 = labelStart + int (length ?S)"
    unfolding visit_inv_def by blast+
  note bd = basic_invD[OF b]
  note sd = seed_invD[OF s]
  have "int (length ?S) \<le> fst sz * snd sz" using fits b by (rule seeds_bounded)
  with fits have "int (length ?S) \<le> INT_MAX" by (simp add: fits_def)
  with L have "?L + 1 \<le> INT_MAX" "INT_MIN \<le> ?L + 1"
    by (simp_all add: labelStart_eq INT_MIN_def INT_MAX_def)
  then have w: "wrap32 (?L + 1) = ?L + 1" by (simp add: wrap32_id)
  let ?st' = "st\<lparr>currentLabel := ?L + 1\<rparr>"
  have pl: "lab sz st pos \<noteq> NOLABEL" using bd(7)[of pos] l by (metis last_in_set)
  have n: "rm_less p (fst pos, snd pos + 1) \<longleftrightarrow> rm_less p pos \<or> p = pos" for p
    using rm_less_next[of p "fst pos" "snd pos"] by simp
  have b': "basic_inv F sz ?st'"
    unfolding basic_inv_def
  proof (intro conjI allI ballI impI; (unfold lab_currentLabel_update)?)
    fix p assume "lab sz st p \<noteq> NOLABEL"
    then show "p \<in> F" "labelStart \<le> lab sz st p" "lab sz st p \<le> currentLabel ?st'"
      using bd(2,3,4)[of p] by simp_all
  next
    fix p assume "p \<in> set (myQueue ?st')"
    then show "lab sz st p = currentLabel ?st'" using Q by simp
  next
    fix s assume "s \<in> set (seedLog ?st')"
    then show "lab sz st s \<noteq> NOLABEL" using bd(7)[of s] by simp
  qed (use bd L in simp_all)
  have fresh: "\<forall>p. lab sz ?st' p \<noteq> currentLabel ?st'"
  proof
    fix p
    show "lab sz ?st' p \<noteq> currentLabel ?st'"
    proof (cases "lab sz st p = NOLABEL")
      case True
      then show ?thesis using bd(8) labelStart_gt by simp
    next
      case False
      then show ?thesis using bd(4)[of p] by simp
    qed
  qed
  have cs: "conn_scan E sz ?st'" using conn_scan_finish[OF c Q sym] by simp
  have "seed_inv F sz (fst pos, snd pos + 1) st"
  proof (rule seed_invI)
    fix p assume "p \<in> F" "rm_less p (fst pos, snd pos + 1)"
    then show "lab sz st p \<noteq> NOLABEL" using sd(4)[of p] pl n by blast
  qed (use sd in blast)+
  then have si: "seed_inv F sz (fst pos, snd pos + 1) ?st'" by simp
  have sl: "\<forall>s \<in> set (seedLog ?st'). rm_less s (fst pos, snd pos + 1)"
    using sorted_last_greatest[OF sd(3) l(1)] l(2) n by auto
  show ?thesis
    unfolding w scan_inv_def using b' fresh cs g si sl Q L by simp
qed

lemma scan_pixel_inv:
  assumes fits: "fits sz" and sup: "supported pix pred sz"
    and F: "F = foreground pix pred sz" and E: "E = edges connect F" and sym: "sym E"
    and inv: "scan_inv F E sz pos st" and v: "IsPixelPosValid sz pos"
  shows "\<exists>st'. scan_pixel pix pred connect sz pos st = Some (Inr st') \<and>
           scan_inv F E sz (fst pos, snd pos + 1) st'"
proof -
  from inv have b: "basic_inv F sz st" and Q: "myQueue st = []"
    and L: "currentLabel st = labelStart + int (length (seedLog st))"
    and fresh: "\<And>p. lab sz st p \<noteq> currentLabel st"
    and c: "conn_scan E sz st" and g: "log_inv sz st" and s: "seed_inv F sz pos st"
    and before: "\<And>s. s \<in> set (seedLog st) \<Longrightarrow> rm_less s pos"
    unfolding scan_inv_def by blast+
  note bd = basic_invD[OF b]
  note sp = scan_pixel_valid[OF fits sup bd(1) v, of connect, folded F]
  consider (bg) "pos \<notin> F" | (old) "pos \<in> F" "lab sz st pos \<noteq> NOLABEL"
    | (seed) "pos \<in> F" "lab sz st pos = NOLABEL" by blast
  then show ?thesis
  proof cases
    case bg
    then have "scan_pixel pix pred connect sz pos st = Some (Inr st)" by (simp add: sp)
    moreover have "scan_inv F E sz (fst pos, snd pos + 1) st"
      using inv bg by (blast intro: scan_inv_skip)
    ultimately show ?thesis by blast
  next
    case old
    then have "scan_pixel pix pred connect sz pos st = Some (Inr st)"
      by (simp add: sp drain_empty[OF Q])
    moreover have "scan_inv F E sz (fst pos, snd pos + 1) st"
      using inv old by (blast intro: scan_inv_skip)
    ultimately show ?thesis by blast
  next
    case seed
    let ?st0 = "st\<lparr>seedLog := seedLog st @ [pos]\<rparr>"
    have "grid_ok sz (labelStorage ?st0)" using bd(1) by simp
    from push_and_label_valid[OF fits this v] obtain st1 where
      st1: "push_and_label pos ?st0 = Inr st1" "labelled_step sz pos ?st0 st1" by blast
    have Lne: "currentLabel st \<noteq> NOLABEL" using bd(8) labelStart_gt by linarith
    have e: "seedLog st1 = seedLog st @ [pos]" "currentLabel st1 = currentLabel st"
      using st1(2) by (simp_all add: labelled_step_def)
    have "basic_inv F sz st1" using b st1(2) seed by (rule basic_inv_seed)
    moreover have "conn_visit E sz pos pos UNIV st1"
    proof (rule conn_visit_seed[OF _ _ st1(2)])
      show "conn_scan E sz ?st0" using c by simp
      show "lab sz ?st0 p \<noteq> currentLabel ?st0" for p using fresh[of p] by simp
      show "lab sz ?st0 pos = NOLABEL" using seed by simp
    qed
    moreover have "log_inv sz st1"
    proof (rule log_inv_labelled[OF _ st1(2)])
      show "log_inv sz ?st0" using g by simp
      show "lab sz ?st0 pos = NOLABEL" using seed by simp
      show "currentLabel ?st0 \<noteq> NOLABEL" using Lne by simp
    qed
    moreover have "seed_inv F sz pos st1"
      using s before st1(2) seed(2) L fresh by (rule seed_inv_seed)
    ultimately have "visit_inv F E sz pos pos UNIV st1"
      unfolding visit_inv_def using e L by simp
    from drain_inv[OF fits sup F E sym this] obtain st2 where
      st2: "drain pix pred connect sz st1 = Some (Inr st2)" "visit_inv F E sz pos pos UNIV st2"
        "myQueue st2 = []" by blast
    have "scan_pixel pix pred connect sz pos st =
            Some (Inr (st2\<lparr>currentLabel := wrap32 (currentLabel st2 + 1)\<rparr>))"
      using seed st1(1) st2(1) by (simp add: sp)
    moreover have "scan_inv F E sz (fst pos, snd pos + 1)
                     (st2\<lparr>currentLabel := wrap32 (currentLabel st2 + 1)\<rparr>)"
      using fits sym st2(2,3) by (rule scan_inv_seeded)
    ultimately show ?thesis by blast
  qed
qed

lemma for_upto_rule_total:
  assumes "P lo s" "lo \<le> hi + 1"
    and "\<And>i s. lo \<le> i \<Longrightarrow> i \<le> hi \<Longrightarrow> P i s \<Longrightarrow> \<exists>s'. body i s = Inr s' \<and> P (i + 1) s'"
  shows "\<exists>s'. for_loop [lo..hi] body s = Inr s' \<and> P (hi + 1) s'"
proof -
  have "\<exists>s'. for_loop_opt [lo..hi] (\<lambda>x s. Some (body x s)) s = Some (Inr s') \<and> P (hi + 1) s'"
    using assms(1,2)
  proof (rule for_upto_rule)
    fix i s assume "lo \<le> i" "i \<le> hi" "P i s"
    then show "\<exists>s'. Some (body i s) = Some (Inr s') \<and> P (i + 1) s'"
      using assms(3)[of i s] by simp
  qed
  then show ?thesis by (simp add: for_loop_opt_total)
qed

lemma foreground_subset: "F = foreground pix pred sz \<Longrightarrow> p \<in> F \<Longrightarrow> IsPixelPosValid sz p"
  by (simp add: foreground_def)

lemma rm_less_row_end:
  assumes "IsPixelPosValid sz p"
  shows "rm_less p (i + 1, 0) \<longleftrightarrow> rm_less p (i, snd sz)"
  using assms by (cases p) (auto simp: rm_less_def IsPixelPosValid_def)

lemma scan_inv_row_end:
  assumes F: "F = foreground pix pred sz" and inv: "scan_inv F E sz (i, snd sz) st"
  shows "scan_inv F E sz (i + 1, 0) st"
proof -
  from inv have b: "basic_inv F sz st" and s: "seed_inv F sz (i, snd sz) st"
    and before: "\<And>s. s \<in> set (seedLog st) \<Longrightarrow> rm_less s (i, snd sz)"
    unfolding scan_inv_def by blast+
  note c = seed_invD[OF s]
  note bd = basic_invD[OF b]
  have "seed_inv F sz (i + 1, 0) st"
  proof (rule seed_invI)
    fix p assume p: "p \<in> F" "rm_less p (i + 1, 0)"
    then have "rm_less p (i, snd sz)"
      using rm_less_row_end[OF foreground_subset[OF F p(1)]] by simp
    with p(1) show "lab sz st p \<noteq> NOLABEL" by (rule c(4))
  qed (use c in blast)+
  moreover have "rm_less s (i + 1, 0)" if "s \<in> set (seedLog st)" for s
  proof -
    from that have "s \<in> F" using bd(7) bd(2) by blast
    then have "IsPixelPosValid sz s" by (rule foreground_subset[OF F])
    with before[OF that] show ?thesis by (simp add: rm_less_row_end)
  qed
  ultimately show ?thesis using inv unfolding scan_inv_def by blast
qed

lemma scan_inv_init:
  assumes F: "F = foreground pix pred sz" and g: "grid_ok sz g" "label_at sz g = (\<lambda>p. NOLABEL)"
  shows "scan_inv F E sz (0, 0)
           \<lparr>labelStorage = g, currentLabel = labelStart, myQueue = [], pushLog = [], seedLog = []\<rparr>"
proof -
  let ?st = "\<lparr>labelStorage = g, currentLabel = labelStart, myQueue = [], pushLog = [], seedLog = []\<rparr>"
  have l: "lab sz ?st = (\<lambda>p. NOLABEL)" using g(2) by (simp add: lab_def)
  have n: "NOLABEL \<noteq> labelStart" using labelStart_gt by simp
  have "\<not> rm_less p (0, 0)" if "p \<in> F" for p
    using foreground_subset[OF F that] by (cases p) (auto simp: rm_less_def IsPixelPosValid_def)
  then have "seed_inv F sz (0, 0) ?st" by (simp add: seed_inv_def l)
  moreover have "basic_inv F sz ?st" using g(1) by (simp add: basic_inv_def l)
  moreover have "conn_scan E sz ?st" by (simp add: conn_scan_def l)
  moreover have "log_inv sz ?st" by (simp add: log_inv_def l)
  ultimately show ?thesis using n by (simp add: scan_inv_def l)
qed

lemma label_pixels_inv:
  assumes fits: "fits sz" and sup: "supported pix pred sz"
    and F: "F = foreground pix pred sz" and E: "E = edges connect F" and sym: "sym E"
    and inv: "scan_inv F E sz (0, 0) st"
  shows "\<exists>st'. label_pixels pix pred connect sz st = Some (Inr st') \<and>
           scan_inv F E sz (fst sz, 0) st'"
proof -
  let ?row = "\<lambda>i. for_loop_opt [0..snd sz - 1] (\<lambda>j. scan_pixel pix pred connect sz (i, j))"
  have row: "\<exists>s'. ?row i s = Some (Inr s') \<and> scan_inv F E sz (i + 1, 0) s'"
    if i: "0 \<le> i" "i \<le> fst sz - 1" and s: "scan_inv F E sz (i, 0) s" for i s
  proof -
    have "\<exists>s'. ?row i s = Some (Inr s') \<and> scan_inv F E sz (i, snd sz - 1 + 1) s'"
    proof (rule for_upto_rule[where P = "\<lambda>j. scan_inv F E sz (i, j)"])
      show "scan_inv F E sz (i, 0) s" by (rule s)
      show "0 \<le> snd sz - 1 + 1" using fits by (simp add: fits_def)
      fix j s assume j: "0 \<le> j" "j \<le> snd sz - 1" and inv: "scan_inv F E sz (i, j) s"
      from i j have "IsPixelPosValid sz (i, j)" by (simp add: IsPixelPosValid_def)
      from scan_pixel_inv[OF fits sup F E sym inv this]
      show "\<exists>s'. scan_pixel pix pred connect sz (i, j) s = Some (Inr s') \<and>
                  scan_inv F E sz (i, j + 1) s'" by simp
    qed
    then obtain s' where s': "?row i s = Some (Inr s')" "scan_inv F E sz (i, snd sz) s'" by auto
    from scan_inv_row_end[OF F s'(2)] s'(1) show ?thesis by blast
  qed
  have "\<exists>s'. for_loop_opt [0..fst sz - 1] ?row st = Some (Inr s') \<and>
           scan_inv F E sz (fst sz - 1 + 1, 0) s'"
  proof (rule for_upto_rule[where P = "\<lambda>i. scan_inv F E sz (i, 0)"])
    show "scan_inv F E sz (0, 0) st" by (rule inv)
    show "0 \<le> fst sz - 1 + 1" using fits by (simp add: fits_def)
    show "\<exists>s'. ?row i s = Some (Inr s') \<and> scan_inv F E sz (i + 1, 0) s'"
      if "0 \<le> i" "i \<le> fst sz - 1" "scan_inv F E sz (i, 0) s" for i s
      using that by (rule row)
  qed
  then show ?thesis by (simp add: label_pixels_def)
qed

lemma find_labels_inv:
  assumes fits: "fits sz" and sup: "supported (access img) pred sz"
    and F: "F = foreground (access img) pred sz" and E: "E = edges connect F" and sym: "sym E"
  shows "\<exists>st. find_labels access pred connect img sz = Some (Inr st) \<and>
           scan_inv F E sz (fst sz, 0) st"
proof -
  from new_Quick2DSizeT_fits[OF fits] obtain g where
    g: "new_Quick2DSizeT (fst sz) (snd sz) = Inr g" "grid_ok sz g" "label_at sz g = (\<lambda>p. NOLABEL)"
    by blast
  let ?st = "\<lparr>labelStorage = g, currentLabel = labelStart, myQueue = [], pushLog = [], seedLog = []\<rparr>"
  have "scan_inv F E sz (0, 0) ?st" using F g(2,3) by (rule scan_inv_init)
  from label_pixels_inv[OF fits sup F E sym this] obtain st' where
    "label_pixels (access img) pred connect sz ?st = Some (Inr st')"
    "scan_inv F E sz (fst sz, 0) st'" by blast
  moreover have "\<not> (fst sz < 1 \<or> snd sz < 1)" using fits by (simp add: fits_def)
  ultimately show ?thesis using g(1) by (simp add: find_labels_def)
qed

subsection \<open>The second scan\<close>

lemma build_result_ok:
  assumes fits: "fits sz" and g: "grid_ok sz (labelStorage st)"
    and range: "\<And>p. lab sz st p \<noteq> NOLABEL \<Longrightarrow> labelStart \<le> lab sz st p \<and> lab sz st p < currentLabel st"
    and L: "labelStart \<le> currentLabel st" "currentLabel st \<le> 0"
  shows "\<exists>comps. build_result sz st = Inr comps \<and>
           length comps = nat (currentLabel st - labelStart) \<and>
           (\<forall>k < length comps. comps ! k = {p. lab sz st p = labelStart + int k})"
proof -
  let ?L = "currentLabel st" and ?l = "lab sz st"
  let ?n = "nat (?L - labelStart)"
  let ?I = "\<lambda>pos res. length res = ?n \<and>
              (\<forall>k < ?n. res ! k = {p. ?l p = labelStart + int k \<and> rm_less p pos})"
  have w: "wrap32 (x - labelStart) = x - labelStart" if "labelStart \<le> x" "x \<le> 0" for x
    using that by (intro wrap32_id) (simp_all add: labelStart_eq INT_MIN_def INT_MAX_def)
  have nn: "\<not> wrap32 (?L - labelStart) < 0" using L by (simp add: w)
  have step: "\<exists>res'. collect (labelStorage st) (i, j) res = Inr res' \<and> ?I (i, j + 1) res'"
    if v: "IsPixelPosValid sz (i, j)" and I: "?I (i, j) res" for i j res
  proof -
    have gl: "get_label (labelStorage st) (fst (i, j)) (snd (i, j)) = Inr (?l (i, j))"
      using get_label_valid[OF fits g v] by (simp add: lab_def)
    show ?thesis
    proof (cases "?l (i, j) = NOLABEL")
      case True
      then have "collect (labelStorage st) (i, j) res = Inr res"
        using gl by (simp add: collect_def)
      moreover have "?I (i, j + 1) res"
        using I True labelStart_gt by (auto simp: rm_less_next)
      ultimately show ?thesis by blast
    next
      case False
      from range[OF False] L have r: "labelStart \<le> ?l (i, j)" "?l (i, j) < ?L" "?l (i, j) \<le> 0"
        by simp_all
      let ?k = "nat (?l (i, j) - labelStart)"
      have k: "?k < ?n" using r by simp
      have ke: "labelStart + int ?k = ?l (i, j)" using r by simp
      let ?res' = "res[?k := insert (i, j) (res ! ?k)]"
      have "collect (labelStorage st) (i, j) res = Inr ?res'"
        using gl False r k I by (simp add: collect_def w Let_def)
      moreover have "?I (i, j + 1) ?res'"
      proof (intro conjI allI impI)
        show "length ?res' = ?n" using I by simp
        fix k' assume k': "k' < ?n"
        show "?res' ! k' = {p. ?l p = labelStart + int k' \<and> rm_less p (i, j + 1)}"
        proof (cases "k' = ?k")
          case True
          then have "?res' ! k' = insert (i, j) (res ! ?k)" using k I by simp
          also have "\<dots> = insert (i, j) {p. ?l p = labelStart + int ?k \<and> rm_less p (i, j)}"
            using I k by simp
          also have "\<dots> = {p. ?l p = labelStart + int k' \<and> rm_less p (i, j + 1)}"
            unfolding True using ke by (auto simp: rm_less_next)
          finally show ?thesis .
        next
          case False
          then have "?l (i, j) \<noteq> labelStart + int k'" using ke by linarith
          moreover from False have "?res' ! k' = res ! k'" by simp
          ultimately show ?thesis using I k' by (auto simp: rm_less_next)
        qed
      qed
      ultimately show ?thesis by blast
    qed
  qed
  let ?row = "\<lambda>i. for_loop [0..snd sz - 1] (\<lambda>j. collect (labelStorage st) (i, j))"
  have row: "\<exists>res'. ?row i res = Inr res' \<and> ?I (i + 1, 0) res'"
    if i: "0 \<le> i" "i \<le> fst sz - 1" and I: "?I (i, 0) res" for i res
  proof -
    have "\<exists>res'. ?row i res = Inr res' \<and> ?I (i, snd sz - 1 + 1) res'"
    proof (rule for_upto_rule_total[where P = "\<lambda>j. ?I (i, j)"])
      show "?I (i, 0) res" by (rule I)
      show "0 \<le> snd sz - 1 + 1" using fits by (simp add: fits_def)
      fix j res assume j: "0 \<le> j" "j \<le> snd sz - 1" and I: "?I (i, j) res"
      from i j have "IsPixelPosValid sz (i, j)" by (simp add: IsPixelPosValid_def)
      then show "\<exists>res'. collect (labelStorage st) (i, j) res = Inr res' \<and> ?I (i, j + 1) res'"
        using I by (rule step)
    qed
    then obtain res' where r: "?row i res = Inr res'" "?I (i, snd sz) res'" by auto
    have "(?l p = labelStart + int k \<and> rm_less p (i, snd sz)) =
          (?l p = labelStart + int k \<and> rm_less p (i + 1, 0))" for p k
    proof (cases "IsPixelPosValid sz p")
      case True
      then show ?thesis by (simp add: rm_less_row_end)
    next
      case False
      then have "?l p = NOLABEL" by (rule lab_invalid)
      then show ?thesis using labelStart_gt by simp
    qed
    with r(2) have "?I (i + 1, 0) res'" by simp
    with r(1) show ?thesis by blast
  qed
  have "\<exists>res'. for_loop [0..fst sz - 1] ?row (replicate ?n {}) = Inr res' \<and>
           ?I (fst sz - 1 + 1, 0) res'"
  proof (rule for_upto_rule_total[where P = "\<lambda>i. ?I (i, 0)"])
    have "\<not> rm_less p (0, 0)" if "?l p \<noteq> NOLABEL" for p
    proof -
      from that have "IsPixelPosValid sz p" using lab_invalid by blast
      then show ?thesis by (cases p) (auto simp: rm_less_def IsPixelPosValid_def)
    qed
    then have "{p. ?l p = labelStart + int k \<and> rm_less p (0, 0)} = {}" for k
      using labelStart_gt by fastforce
    then show "?I (0, 0) (replicate ?n {})" by simp
    show "0 \<le> fst sz - 1 + 1" using fits by (simp add: fits_def)
    show "\<exists>res'. ?row i res = Inr res' \<and> ?I (i + 1, 0) res'"
      if "0 \<le> i" "i \<le> fst sz - 1" "?I (i, 0) res" for i res
      using that by (rule row)
  qed
  then obtain comps where c: "for_loop [0..fst sz - 1] ?row (replicate ?n {}) = Inr comps"
    "?I (fst sz, 0) comps" by auto
  have "rm_less p (fst sz, 0)" if "?l p = labelStart + int k" for p k
  proof -
    from that have "?l p \<noteq> NOLABEL" using labelStart_gt by simp
    then have "IsPixelPosValid sz p" using lab_invalid by blast
    then show ?thesis by (cases p) (auto simp: rm_less_def IsPixelPosValid_def)
  qed
  then have "{p. ?l p = labelStart + int k \<and> rm_less p (fst sz, 0)} =
             {p. ?l p = labelStart + int k}" for k by blast
  with c(2) have "length comps = ?n" "\<forall>k < length comps. comps ! k = {p. ?l p = labelStart + int k}"
    by simp_all
  moreover have "build_result sz st = Inr comps"
    using c(1) nn L by (simp add: build_result_def w Let_def)
  ultimately show ?thesis by blast
qed

subsection \<open>The two neighbour generators\<close>

lemma FourConnect_unwrapped:
  assumes "INT_MIN < r" "r < INT_MAX" "INT_MIN < c" "c < INT_MAX"
  shows "FourConnect (r, c) = [(r + 1, c), (r, c + 1), (r - 1, c), (r, c - 1)]"
proof -
  have "wrap32 (r + 1) = r + 1" "wrap32 (r - 1) = r - 1"
       "wrap32 (c + 1) = c + 1" "wrap32 (c - 1) = c - 1"
    using assms by (simp_all add: wrap32_id)
  then show ?thesis by (simp add: FourConnect_def)
qed

lemma EightConnect_unwrapped:
  assumes "INT_MIN < r" "r < INT_MAX" "INT_MIN < c" "c < INT_MAX"
  shows "EightConnect (r, c) =
           [(r - 1, c - 1), (r - 1, c), (r - 1, c + 1),
            (r, c - 1), (r, c + 1),
            (r + 1, c - 1), (r + 1, c), (r + 1, c + 1)]"
proof -
  have "wrap32 (r + 1) = r + 1" "wrap32 (r - 1) = r - 1" "wrap32 r = r"
       "wrap32 (c + 1) = c + 1" "wrap32 (c - 1) = c - 1" "wrap32 c = c"
    using assms by (simp_all add: wrap32_id)
  then show ?thesis by (simp add: EightConnect_def)
qed

lemma abs_le_one: "\<bar>a - r\<bar> \<le> 1 \<longleftrightarrow> a = r - 1 \<or> a = r \<or> a = r + 1" for a r :: int
  by linarith

lemma abs_eq_one: "\<bar>a - r\<bar> = 1 \<longleftrightarrow> a = r - 1 \<or> a = r + 1" for a r :: int
  by linarith

lemma near_FourConnect:
  "q \<in> set [(r + 1, c), (r, c + 1), (r - 1, c), (r, c - 1)] \<longleftrightarrow>
     (fst q = r \<and> \<bar>snd q - c\<bar> = 1) \<or> (snd q = c \<and> \<bar>fst q - r\<bar> = 1)" for r c :: int
  by (cases q) (auto simp: abs_eq_one)

lemma near_EightConnect:
  "q \<in> set [(r - 1, c - 1), (r - 1, c), (r - 1, c + 1), (r, c - 1), (r, c + 1),
            (r + 1, c - 1), (r + 1, c), (r + 1, c + 1)] \<longleftrightarrow>
     \<bar>fst q - r\<bar> \<le> 1 \<and> \<bar>snd q - c\<bar> \<le> 1 \<and> q \<noteq> (r, c)" for r c :: int
  by (cases q) (auto simp: abs_le_one)

lemma valid_in_range:
  assumes "fits sz" "IsPixelPosValid sz p"
  shows "INT_MIN < fst p" "fst p < INT_MAX" "INT_MIN < snd p" "snd p < INT_MAX"
proof -
  from assms(1) have f: "1 \<le> fst sz" "1 \<le> snd sz" "fst sz * snd sz \<le> INT_MAX"
    by (simp_all add: fits_def)
  have "fst sz * 1 \<le> fst sz * snd sz" using f(1,2) by (intro mult_left_mono) simp_all
  with f(3) have r: "fst sz \<le> INT_MAX" by simp
  have "1 * snd sz \<le> fst sz * snd sz" using f(1,2) by (intro mult_right_mono) simp_all
  with f(3) have c: "snd sz \<le> INT_MAX" by simp
  from assms(2) have "0 \<le> fst p" "fst p < fst sz" "0 \<le> snd p" "snd p < snd sz"
    by (simp_all add: IsPixelPosValid_def)
  with r c show "INT_MIN < fst p" "fst p < INT_MAX" "INT_MIN < snd p" "snd p < INT_MAX"
    by (simp_all add: INT_MIN_def)
qed

lemma sym_edges:
  assumes fits: "fits sz" and F: "F = foreground pix pred sz"
    and conn: "connect = FourConnect \<or> connect = EightConnect"
  shows "sym (edges connect F)"
proof (rule symI)
  fix p q assume "(p, q) \<in> edges connect F"
  then have pq: "p \<in> F" "q \<in> F" "q \<in> set (connect p)" by (simp_all add: edges_def)
  obtain r c where p: "p = (r, c)" by (cases p)
  obtain r' c' where q: "q = (r', c')" by (cases q)
  note rp = valid_in_range[OF fits foreground_subset[OF F pq(1)], unfolded p fst_conv snd_conv]
  note rq = valid_in_range[OF fits foreground_subset[OF F pq(2)], unfolded q fst_conv snd_conv]
  have ac: "\<bar>c - c'\<bar> = \<bar>c' - c\<bar>" "\<bar>r - r'\<bar> = \<bar>r' - r\<bar>"
    by (rule abs_minus_commute)+
  from conn have "p \<in> set (connect q)"
  proof
    assume c4: "connect = FourConnect"
    from pq(3) have "(r' = r \<and> \<bar>c' - c\<bar> = 1) \<or> (c' = c \<and> \<bar>r' - r\<bar> = 1)"
      unfolding c4 p q FourConnect_unwrapped[OF rp] near_FourConnect by simp
    then have "(r = r' \<and> \<bar>c - c'\<bar> = 1) \<or> (c = c' \<and> \<bar>r - r'\<bar> = 1)"
      unfolding ac by auto
    then show ?thesis
      unfolding c4 p q FourConnect_unwrapped[OF rq] near_FourConnect by simp
  next
    assume c8: "connect = EightConnect"
    from pq(3) have "\<bar>r' - r\<bar> \<le> 1 \<and> \<bar>c' - c\<bar> \<le> 1 \<and> (r', c') \<noteq> (r, c)"
      unfolding c8 p q EightConnect_unwrapped[OF rp] near_EightConnect by simp
    then have "\<bar>r - r'\<bar> \<le> 1 \<and> \<bar>c - c'\<bar> \<le> 1 \<and> (r, c) \<noteq> (r', c')"
      unfolding ac by auto
    then show ?thesis
      unfolding c8 p q EightConnect_unwrapped[OF rq] near_EightConnect by simp
  qed
  with pq show "(q, p) \<in> edges connect F" by (simp add: edges_def)
qed

subsection \<open>Paths\<close>

lemma is_path_hd: "is_path connect F ps \<Longrightarrow> hd ps \<in> F"
  by (induction connect F ps rule: is_path.induct) auto

lemma is_path_reach:
  "is_path connect F ps \<Longrightarrow> (hd ps, last ps) \<in> (edges connect F)\<^sup>*"
proof (induction connect F ps rule: is_path.induct)
  case (3 connect F p q ps)
  then have "p \<in> F" "q \<in> set (connect p)" "is_path connect F (q # ps)" by simp_all
  moreover from this(3) have "q \<in> F" using is_path_hd by fastforce
  ultimately have "(p, q) \<in> edges connect F" by (simp add: edges_def)
  moreover have "(q, last (q # ps)) \<in> (edges connect F)\<^sup>*"
    using 3 by simp
  ultimately show ?case by (simp add: converse_rtrancl_into_rtrancl)
qed simp_all

lemma reach_is_path:
  assumes "(p, q) \<in> (edges connect F)\<^sup>*" "p \<in> F"
  shows "\<exists>ps. is_path connect F ps \<and> hd ps = p \<and> last ps = q"
  using assms
proof (induction rule: converse_rtrancl_induct)
  case base
  then have "is_path connect F [q] \<and> hd [q] = q \<and> last [q] = q" by simp
  then show ?case by blast
next
  case (step y z)
  then have e: "y \<in> F" "z \<in> F" "z \<in> set (connect y)" by (simp_all add: edges_def)
  from step.IH[OF e(2)] obtain ps where ps: "is_path connect F ps" "hd ps = z" "last ps = q"
    by blast
  then obtain ps' where c: "ps = z # ps'" by (cases ps) auto
  have "is_path connect F (y # ps) \<and> hd (y # ps) = y \<and> last (y # ps) = q"
    using ps e unfolding c by simp
  then show ?case by blast
qed

lemma connected_iff:
  "connected connect F p q \<longleftrightarrow> p \<in> F \<and> (p, q) \<in> (edges connect F)\<^sup>*"
  unfolding connected_def using is_path_hd is_path_reach reach_is_path by metis

subsection \<open>The state after the labelling scan\<close>

lemma final_labelled:
  assumes F: "F = foreground pix pred sz" and inv: "scan_inv F E sz (fst sz, 0) st"
  shows "lab sz st p \<noteq> NOLABEL \<longleftrightarrow> p \<in> F"
proof
  from inv have b: "basic_inv F sz st" unfolding scan_inv_def by blast
  then show "lab sz st p \<noteq> NOLABEL \<Longrightarrow> p \<in> F" by (rule basic_invD(2))
next
  assume p: "p \<in> F"
  from inv have s: "seed_inv F sz (fst sz, 0) st" unfolding scan_inv_def by blast
  from foreground_subset[OF F p] have "rm_less p (fst sz, 0)"
    by (cases p) (auto simp: rm_less_def IsPixelPosValid_def)
  with p show "lab sz st p \<noteq> NOLABEL" by (rule seed_invD(4)[OF s])
qed

lemma final_range:
  assumes inv: "scan_inv F E sz pos st" and p: "lab sz st p \<noteq> NOLABEL"
  shows "\<exists>k < length (seedLog st). lab sz st p = labelStart + int k"
proof -
  from inv have b: "basic_inv F sz st"
    and L: "currentLabel st = labelStart + int (length (seedLog st))"
    and fresh: "lab sz st p \<noteq> currentLabel st"
    unfolding scan_inv_def by blast+
  note bd = basic_invD[OF b]
  from bd(3)[OF p] bd(4)[OF p] fresh L
  have "0 \<le> lab sz st p - labelStart" "lab sz st p - labelStart < int (length (seedLog st))"
    by simp_all
  then have "nat (lab sz st p - labelStart) < length (seedLog st)"
    "lab sz st p = labelStart + int (nat (lab sz st p - labelStart))" by simp_all
  then show ?thesis by blast
qed

lemma finder_fits:
  assumes fits: "fits sz" and sup: "supported (access img) pred sz"
    and F: "F = foreground (access img) pred sz" and E: "E = edges connect F"
    and conn: "connect = FourConnect \<or> connect = EightConnect"
  shows "\<exists>st comps. find_labels access pred connect img sz = Some (Inr st) \<and>
           ConnectComponentFinder access pred connect img sz = Some (Inr comps) \<and>
           scan_inv F E sz (fst sz, 0) st \<and>
           length comps = length (seedLog st) \<and>
           (\<forall>k < length comps. comps ! k = {p. lab sz st p = labelStart + int k})"
proof -
  have sym: "sym E" unfolding E using fits F conn by (rule sym_edges)
  from find_labels_inv[where access = access and img = img, OF fits sup F E sym] obtain st where
    st: "find_labels access pred connect img sz = Some (Inr st)"
      "scan_inv F E sz (fst sz, 0) st" by blast
  from st(2) have b: "basic_inv F sz st"
    and L: "currentLabel st = labelStart + int (length (seedLog st))"
    and fresh: "\<And>p. lab sz st p \<noteq> currentLabel st"
    unfolding scan_inv_def by blast+
  note bd = basic_invD[OF b]
  have "int (length (seedLog st)) \<le> fst sz * snd sz" using fits b by (rule seeds_bounded)
  with fits have "int (length (seedLog st)) \<le> INT_MAX" by (simp add: fits_def)
  with L have L0: "currentLabel st \<le> 0" by (simp add: labelStart_eq INT_MIN_def INT_MAX_def)
  have "\<exists>comps. build_result sz st = Inr comps \<and>
           length comps = nat (currentLabel st - labelStart) \<and>
           (\<forall>k < length comps. comps ! k = {p. lab sz st p = labelStart + int k})"
  proof (rule build_result_ok[OF fits bd(1) _ bd(8) L0])
    fix p assume "lab sz st p \<noteq> NOLABEL"
    then show "labelStart \<le> lab sz st p \<and> lab sz st p < currentLabel st"
      using bd(3)[of p] bd(4)[of p] fresh[of p] by simp
  qed
  then obtain comps where c: "build_result sz st = Inr comps"
    "length comps = nat (currentLabel st - labelStart)"
    "\<forall>k < length comps. comps ! k = {p. lab sz st p = labelStart + int k}" by blast
  have "ConnectComponentFinder access pred connect img sz = Some (Inr comps)"
    using st(1) c(1) by (simp add: ConnectComponentFinder_def)
  moreover have "length comps = length (seedLog st)" using c(2) L by simp
  ultimately show ?thesis using st c(3) by blast
qed

subsection \<open>A grid whose number of pixels is not an \<^verbatim>\<open>int\<close>\<close>

lemma set_label_shape:
  "set_label g r c v = Inr g' \<Longrightarrow> cols g' = cols g \<and> length (data g') = length (data g)"
  by (auto simp: set_label_def split: sum.splits)

lemma push_and_label_shape:
  "push_and_label p st = Inr st' \<Longrightarrow> same_shape g st \<Longrightarrow> same_shape g st'"
  by (auto simp: push_and_label_def same_shape_def split: sum.splits dest: set_label_shape)

lemma visit_shape:
  "visit pix pred sz q st = Inr st' \<Longrightarrow> same_shape g st \<Longrightarrow> same_shape g st'"
  by (auto simp: visit_def split: if_splits option.splits sum.splits dest: push_and_label_shape)

lemma drain_step_shape:
  assumes "drain_step pix pred connect sz st = Inr st'" "same_shape g st"
  shows "same_shape g st'"
proof -
  from assms(1) have "for_loop (connect (hd (myQueue st))) (visit pix pred sz)
                        (st\<lparr>myQueue := tl (myQueue st)\<rparr>) = Inr st'"
    by (simp add: drain_step_def Let_def)
  moreover have "same_shape g (st\<lparr>myQueue := tl (myQueue st)\<rparr>)"
    using assms(2) by (simp add: same_shape_def)
  ultimately show ?thesis
    by (rule for_loop_preserves) (rule visit_shape)
qed

lemma drain_shape:
  assumes "drain pix pred connect sz st = Some (Inr st')" "same_shape g st"
  shows "same_shape g st'"
  using drain_preserves[OF assms(1), of "same_shape g"] assms(2) drain_step_shape by blast

lemma scan_pixel_shape:
  assumes "scan_pixel pix pred connect sz pos st = Some (Inr st')" "same_shape g st"
  shows "same_shape g st'"
proof -
  from assms(1) obtain v where v: "pix (nat (fst pos)) (nat (snd pos)) = Some v"
    by (auto simp: scan_pixel_def split: option.splits)
  from assms(1) v obtain b where b: "pred v = Inr b"
    by (auto simp: scan_pixel_def split: sum.splits)
  show ?thesis
  proof (cases b)
    case False
    with assms v b show ?thesis by (simp add: scan_pixel_def)
  next
    case True
    from assms(1) v b True obtain l where
      l: "get_label (labelStorage st) (fst pos) (snd pos) = Inr l"
      by (auto simp: scan_pixel_def split: sum.splits)
    let ?r = "if l = NOLABEL then push_and_label pos (st\<lparr>seedLog := seedLog st @ [pos]\<rparr>)
              else Inr st"
    from assms(1) v b True l obtain st1 where st1: "?r = Inr st1"
      by (simp add: scan_pixel_def split: sum.splits)
    from assms(1) v b True l st1 obtain st2 where
      st2: "drain pix pred connect sz st1 = Some (Inr st2)"
      and e: "st' = (if l = NOLABEL then st2\<lparr>currentLabel := wrap32 (currentLabel st2 + 1)\<rparr>
                     else st2)"
      by (simp add: scan_pixel_def split: sum.splits option.splits)
    have "same_shape g (st\<lparr>seedLog := seedLog st @ [pos]\<rparr>)"
      using assms(2) by (simp add: same_shape_def)
    with st1 assms(2) have "same_shape g st1"
      by (auto split: if_splits dest: push_and_label_shape)
    with st2 have "same_shape g st2" by (rule drain_shape)
    then show ?thesis unfolding e by (simp add: same_shape_def)
  qed
qed

lemma label_pixels_shape:
  assumes "label_pixels pix pred connect sz st = Some (Inr st')" "same_shape g st"
  shows "same_shape g st'"
  using assms(1) unfolding label_pixels_def
proof (rule for_loop_opt_preserves[where Q = "same_shape g"])
  show "same_shape g st" by (rule assms(2))
  fix i s s'
  assume "same_shape g s"
    "for_loop_opt [0..snd sz - 1] (\<lambda>j. scan_pixel pix pred connect sz (i, j)) s = Some (Inr s')"
  from this(2,1) show "same_shape g s'"
    by (rule for_loop_opt_preserves) (rule scan_pixel_shape)
qed

lemma build_result_overflow:
  assumes sz: "1 \<le> fst sz" "1 \<le> snd sz"
    and g: "cols (labelStorage st) = snd sz" "int (length (data (labelStorage st))) = n"
    and n: "n \<le> INT_MAX" "n < fst sz * snd sz"
  shows "build_result sz st \<noteq> Inr comps"
proof -
  let ?C = "snd sz" and ?g = "labelStorage st"
  let ?i = "n div ?C" and ?j = "n mod ?C"
  have n0: "0 \<le> n" using g(2) by simp
  have j: "0 \<le> ?j" "?j < ?C" using sz(2) by simp_all
  have i0: "0 \<le> ?i" using n0 sz(2) by (simp add: pos_imp_zdiv_nonneg_iff)
  have "?i * ?C \<le> n" using sz(2) by (metis div_mult_mod_eq j(1) le_add_same_cancel1)
  have i1: "?i < fst sz"
  proof (rule ccontr)
    assume "\<not> ?i < fst sz"
    then have "fst sz \<le> ?i" by simp
    then have "fst sz * ?C \<le> ?i * ?C" using sz(2) by (intro mult_right_mono) simp_all
    with \<open>?i * ?C \<le> n\<close> n(2) show False by linarith
  qed
  have m: "0 \<le> ?i * ?C" using i0 sz(2) by simp
  have "INT_MIN \<le> ?i * ?C" using m unfolding INT_MIN_def by linarith
  moreover have "?i * ?C \<le> INT_MAX" using \<open>?i * ?C \<le> n\<close> n(1) by linarith
  ultimately have w1: "wrap32 (?i * ?C) = ?i * ?C" by (rule wrap32_id)
  have e: "?i * ?C + ?j = n" by simp
  have "INT_MIN \<le> n" using n0 unfolding INT_MIN_def by linarith
  then have w2: "wrap32 n = n" using n(1) by (rule wrap32_id)
  have "slot ?g ?i ?j = Inl OutOfRange"
    using g n0 by (simp add: slot_def w1 e w2)
  then have col: "collect ?g (?i, ?j) res = Inl OutOfRange" for res
    by (simp add: collect_def get_label_def)
  have "?j \<in> set [0..?C - 1]" using j by simp
  then have row: "\<exists>e. for_loop [0..?C - 1] (\<lambda>j. collect ?g (?i, j)) res = Inl e" for res
    by (rule for_loop_fails) (simp add: col)
  have "?i \<in> set [0..fst sz - 1]" using i0 i1 by simp
  then have "\<exists>e. for_loop [0..fst sz - 1]
                 (\<lambda>i. for_loop [0..?C - 1] (\<lambda>j. collect ?g (i, j))) res = Inl e" for res
    by (rule for_loop_fails) (rule row)
  then show ?thesis
    by (auto simp: build_result_def Let_def) (metis Inl_Inr_False)
qed

lemma finder_overflow:
  assumes sz: "1 \<le> fst sz" "1 \<le> snd sz" and big: "INT_MAX < fst sz * snd sz"
  shows "ConnectComponentFinder access pred connect img sz \<noteq> Some (Inr comps)"
proof
  assume r: "ConnectComponentFinder access pred connect img sz = Some (Inr comps)"
  then obtain st where st: "find_labels access pred connect img sz = Some (Inr st)"
    "build_result sz st = Inr comps"
    by (auto simp: ConnectComponentFinder_def split: option.splits sum.splits)
  let ?n = "wrap32 (fst sz * snd sz)"
  let ?g = "\<lparr>cols = snd sz, data = replicate (nat ?n) NOLABEL\<rparr>"
  let ?st0 = "\<lparr>labelStorage = ?g, currentLabel = labelStart, myQueue = [],
                pushLog = [], seedLog = []\<rparr>"
  from st(1) sz have n0: "0 \<le> ?n"
    and lp: "label_pixels (access img) pred connect sz ?st0 = Some (Inr st)"
    by (auto simp: find_labels_def new_Quick2DSizeT_def Let_def split: if_splits)
  have "same_shape ?g ?st0" by (simp add: same_shape_def)
  with lp have "same_shape ?g st" by (rule label_pixels_shape)
  then have g: "cols (labelStorage st) = snd sz" "int (length (data (labelStorage st))) = ?n"
    using n0 by (simp_all add: same_shape_def)
  have "?n \<le> INT_MAX" by (simp add: wrap32_def INT_MAX_def)
  moreover from this big have "?n < fst sz * snd sz" by linarith
  ultimately have "build_result sz st \<noteq> Inr comps"
    using sz g by (intro build_result_overflow) 
  with st(2) show False by simp
qed

subsection \<open>The errors of a call with a valid size\<close>

lemma slot_error: "slot g r c = Inl e \<Longrightarrow> e = OutOfRange"
  by (auto simp: slot_def Let_def split: if_splits)

lemma get_label_error: "get_label g r c = Inl e \<Longrightarrow> e = OutOfRange"
  by (auto simp: get_label_def split: sum.splits dest: slot_error)

lemma set_label_error: "set_label g r c v = Inl e \<Longrightarrow> e = OutOfRange"
  by (auto simp: set_label_def split: sum.splits dest: slot_error)

lemma push_and_label_error: "push_and_label p st = Inl e \<Longrightarrow> e = OutOfRange"
  by (auto simp: push_and_label_def split: sum.splits dest: set_label_error)

lemma visit_error:
  "visit pix pred sz q st = Inl e \<Longrightarrow> e = OutOfRange \<or> (\<exists>v. pred v = Inl e)"
  by (auto simp: visit_def split: if_splits option.splits sum.splits
           dest: get_label_error push_and_label_error)

lemma drain_step_error:
  assumes "drain_step pix pred connect sz st = Inl e"
  shows "e = OutOfRange \<or> (\<exists>v. pred v = Inl e)"
proof -
  from assms have "for_loop (connect (hd (myQueue st))) (visit pix pred sz)
                     (st\<lparr>myQueue := tl (myQueue st)\<rparr>) = Inl e"
    by (simp add: drain_step_def Let_def)
  from for_loop_error[OF this] show ?thesis using visit_error by blast
qed

lemma scan_pixel_error:
  assumes "scan_pixel pix pred connect sz pos st = Some (Inl e)"
  shows "e = OutOfRange \<or> (\<exists>v. pred v = Inl e)"
proof (cases "pix (nat (fst pos)) (nat (snd pos))")
  case None
  with assms show ?thesis by (simp add: scan_pixel_def)
next
  case (Some v)
  show ?thesis
  proof (cases "pred v")
    case (Inl e')
    with assms Some show ?thesis by (auto simp: scan_pixel_def)
  next
    case (Inr b)
    show ?thesis
    proof (cases b)
      case False
      with assms Some Inr show ?thesis by (simp add: scan_pixel_def)
    next
      case True
      note pre = Some Inr True
      show ?thesis
      proof (cases "get_label (labelStorage st) (fst pos) (snd pos)")
        case (Inl e')
        with assms pre have "e' = e" by (simp add: scan_pixel_def)
        with Inl show ?thesis using get_label_error by blast
      next
        case l: (Inr l)
        let ?r = "if l = NOLABEL then push_and_label pos (st\<lparr>seedLog := seedLog st @ [pos]\<rparr>)
                  else Inr st"
        show ?thesis
        proof (cases ?r)
          case (Inl e')
          with assms pre l have "e' = e" by (simp add: scan_pixel_def)
          with Inl show ?thesis using push_and_label_error by (auto split: if_splits)
        next
          case st1: (Inr st1)
          with assms pre l have "drain pix pred connect sz st1 = Some (Inl e)"
            by (simp add: scan_pixel_def split: option.splits sum.splits)
          from drain_error[OF this] show ?thesis using drain_step_error by blast
        qed
      qed
    qed
  qed
qed

lemma label_pixels_error:
  assumes "label_pixels pix pred connect sz st = Some (Inl e)"
  shows "e = OutOfRange \<or> (\<exists>v. pred v = Inl e)"
proof -
  from for_loop_opt_error[OF assms[unfolded label_pixels_def]] obtain i s where
    "for_loop_opt [0..snd sz - 1] (\<lambda>j. scan_pixel pix pred connect sz (i, j)) s = Some (Inl e)"
    by blast
  from for_loop_opt_error[OF this] show ?thesis using scan_pixel_error by blast
qed

lemma collect_error: "collect g pos res = Inl e \<Longrightarrow> e = OutOfRange"
  by (auto simp: collect_def Let_def split: sum.splits if_splits dest: get_label_error)

lemma build_result_error:
  assumes "build_result sz st = Inl e"
  shows "e = OutOfRange \<or> e = LengthError"
proof (cases "wrap32 (currentLabel st - labelStart) < 0")
  case True
  with assms show ?thesis by (simp add: build_result_def)
next
  case False
  with assms have "for_loop [0..fst sz - 1] (\<lambda>i.
             for_loop [0..snd sz - 1] (\<lambda>j. collect (labelStorage st) (i, j)))
             (replicate (nat (wrap32 (currentLabel st - labelStart))) {}) = Inl e"
    by (simp add: build_result_def)
  from for_loop_error[OF this] obtain i s where
    "for_loop [0..snd sz - 1] (\<lambda>j. collect (labelStorage st) (i, j)) s = Inl e" by blast
  from for_loop_error[OF this] show ?thesis using collect_error by blast
qed

lemma finder_errors:
  assumes sz: "1 \<le> fst sz" "1 \<le> snd sz"
    and r: "ConnectComponentFinder access pred connect img sz = Some (Inl e)"
  shows "e = OutOfRange \<or> e = LengthError \<or> (\<exists>v. pred v = Inl e)"
proof (cases "find_labels access pred connect img sz")
  case None
  with r show ?thesis by (simp add: ConnectComponentFinder_def)
next
  case (Some x)
  show ?thesis
  proof (cases x)
    case (Inr st)
    with Some r have "build_result sz st = Inl e" by (simp add: ConnectComponentFinder_def)
    from build_result_error[OF this] show ?thesis by blast
  next
    case (Inl e')
    with Some r have e: "find_labels access pred connect img sz = Some (Inl e)"
      by (simp add: ConnectComponentFinder_def)
    show ?thesis
    proof (cases "new_Quick2DSizeT (fst sz) (snd sz)")
      case (Inl e'')
      then have "e'' = LengthError" by (auto simp: new_Quick2DSizeT_def Let_def split: if_splits)
      with Inl e sz show ?thesis by (simp add: find_labels_def)
    next
      case (Inr g)
      with e sz have "label_pixels (access img) pred connect sz
           \<lparr>labelStorage = g, currentLabel = labelStart, myQueue = [],
            pushLog = [], seedLog = []\<rparr> = Some (Inl e)"
        by (simp add: find_labels_def)
      from label_pixels_error[OF this] show ?thesis by blast
    qed
  qed
qed

text \<open>A classifier that classifies every value never makes the finder fail with
  \<open>UnsupportedType\<close>.\<close>

lemma total_pred_supported:
  assumes "\<And>v. \<exists>b. pred v = Inr b"
  shows "ConnectComponentFinder access pred connect img sz \<noteq> Some (Inl UnsupportedType)"
proof (cases "1 \<le> fst sz \<and> 1 \<le> snd sz")
  case True
  show ?thesis
  proof
    assume r: "ConnectComponentFinder access pred connect img sz = Some (Inl UnsupportedType)"
    from True have "1 \<le> fst sz" "1 \<le> snd sz" by simp_all
    from finder_errors[OF this r] obtain v where "pred v = Inl UnsupportedType" by auto
    with assms[of v] show False by auto
  qed
next
  case False
  then have "ConnectComponentFinder access pred connect img sz = Some (Inl InvalidSize)"
    by (auto simp: ConnectComponentFinder_def find_labels_def)
  then show ?thesis by simp
qed

subsection \<open>What a returned result is\<close>

lemma fits_if_returned:
  assumes "1 \<le> fst sz" "1 \<le> snd sz"
    and "ConnectComponentFinder access pred connect img sz = Some (Inr comps)"
  shows "fits sz"
proof (rule ccontr)
  assume "\<not> fits sz"
  with assms(1,2) have "INT_MAX < fst sz * snd sz" by (simp add: fits_def)
  with assms(1,2) have "ConnectComponentFinder access pred connect img sz \<noteq> Some (Inr comps)"
    by (rule finder_overflow)
  with assms(3) show False by simp
qed

lemma finder_returned:
  assumes sz: "1 \<le> fst sz" "1 \<le> snd sz" and sup: "supported (access img) pred sz"
    and F: "F = foreground (access img) pred sz" and E: "E = edges connect F"
    and conn: "connect = FourConnect \<or> connect = EightConnect"
    and r: "ConnectComponentFinder access pred connect img sz = Some (Inr comps)"
  shows "\<exists>st. find_labels access pred connect img sz = Some (Inr st) \<and>
           scan_inv F E sz (fst sz, 0) st \<and>
           length comps = length (seedLog st) \<and>
           (\<forall>k < length comps. comps ! k = {p. lab sz st p = labelStart + int k})"
proof -
  have "fits sz" using sz r by (rule fits_if_returned)
  from finder_fits[where access = access and img = img, OF this sup F E conn] r
  show ?thesis by auto
qed

lemma finder_returns:
  assumes "fits sz" "supported (access img) pred sz"
    and "connect = FourConnect \<or> connect = EightConnect"
  shows "\<exists>comps. ConnectComponentFinder access pred connect img sz = Some (Inr comps)"
  using finder_fits[where access = access and img = img, OF assms(1,2) refl refl assms(3)]
  by blast

lemma conn_scan_closed:
  assumes "conn_scan E sz st" "(p, q) \<in> E\<^sup>*" "lab sz st p \<noteq> NOLABEL"
  shows "lab sz st q = lab sz st p"
  using assms(2,3)
proof (induction rule: rtrancl_induct)
  case base
  show ?case by simp
next
  case (step y z)
  then have y: "lab sz st y = lab sz st p" by simp
  with step.prems have "lab sz st y \<noteq> NOLABEL" by simp
  from conn_scanD(1)[OF assms(1) this step.hyps(2)] y show ?case by simp
qed

lemma same_component_iff:
  assumes n: "length comps = length (seedLog st)"
    and c: "\<forall>k < length comps. comps ! k = {p. lab sz st p = labelStart + int k}"
    and inv: "scan_inv F E sz pos st" and p: "lab sz st p \<noteq> NOLABEL"
  shows "(\<exists>c \<in> set comps. p \<in> c \<and> q \<in> c) \<longleftrightarrow> lab sz st q = lab sz st p"
proof
  assume "\<exists>c \<in> set comps. p \<in> c \<and> q \<in> c"
  then obtain k where "k < length comps" "p \<in> comps ! k" "q \<in> comps ! k"
    by (auto simp: in_set_conv_nth)
  with c show "lab sz st q = lab sz st p" by simp
next
  assume e: "lab sz st q = lab sz st p"
  from final_range[OF inv p] obtain k where k: "k < length (seedLog st)"
    "lab sz st p = labelStart + int k" by blast
  from k(1) n have kk: "k < length comps" by simp
  then have m: "comps ! k \<in> set comps" by (rule nth_mem)
  from c kk have "comps ! k = {p. lab sz st p = labelStart + int k}" by blast
  with k(2) e have "p \<in> comps ! k" "q \<in> comps ! k" by simp_all
  with m show "\<exists>c \<in> set comps. p \<in> c \<and> q \<in> c" by blast
qed

lemma components_union:
  assumes n: "length comps = length (seedLog st)"
    and c: "\<forall>k < length comps. comps ! k = {p. lab sz st p = labelStart + int k}"
    and inv: "scan_inv F E sz pos st"
  shows "\<Union> (set comps) = {p. lab sz st p \<noteq> NOLABEL}"
proof (intro set_eqI iffI)
  fix p assume "p \<in> \<Union> (set comps)"
  then obtain k where "k < length comps" "p \<in> comps ! k" by (auto simp: in_set_conv_nth)
  with c have "lab sz st p = labelStart + int k" by simp
  then show "p \<in> {p. lab sz st p \<noteq> NOLABEL}" using labelStart_gt by simp
next
  fix p assume "p \<in> {p. lab sz st p \<noteq> NOLABEL}"
  then have p: "lab sz st p \<noteq> NOLABEL" by simp
  from same_component_iff[OF n c inv p, of p] show "p \<in> \<Union> (set comps)" by auto
qed

subsection \<open>Seeds and labels of the final state\<close>

lemma final_seeds:
  assumes n: "length comps = length (seedLog st)"
    and c: "\<forall>k < length comps. comps ! k = {p. lab sz st p = labelStart + int k}"
    and inv: "scan_inv F E sz pos st" and k: "k < length comps"
  shows "seedLog st ! k \<in> comps ! k" and "\<forall>p \<in> comps ! k. \<not> rm_less p (seedLog st ! k)"
proof -
  from inv have s: "seed_inv F sz pos st" unfolding scan_inv_def by blast
  note sd = seed_invD[OF s]
  from k n have k': "k < length (seedLog st)" by simp
  from c k have ck: "comps ! k = {p. lab sz st p = labelStart + int k}" by blast
  show "seedLog st ! k \<in> comps ! k" unfolding ck using sd(1)[OF k'] by simp
  show "\<forall>p \<in> comps ! k. \<not> rm_less p (seedLog st ! k)" unfolding ck using sd(2)[OF k'] by simp
qed

lemma final_labels_dense:
  assumes inv: "scan_inv F E sz pos st"
  shows "{lab sz st p - labelStart | p. lab sz st p \<noteq> NOLABEL} = {0..<int (length (seedLog st))}"
proof (intro set_eqI iffI)
  fix x assume "x \<in> {lab sz st p - labelStart | p. lab sz st p \<noteq> NOLABEL}"
  then obtain p where p: "x = lab sz st p - labelStart" "lab sz st p \<noteq> NOLABEL" by blast
  from final_range[OF inv p(2)] p(1) show "x \<in> {0..<int (length (seedLog st))}" by auto
next
  fix x assume "x \<in> {0..<int (length (seedLog st))}"
  then have x0: "0 \<le> x" by simp
  from \<open>x \<in> {0..<int (length (seedLog st))}\<close>
  have x: "nat x < length (seedLog st)" "int (nat x) = x" by (simp_all add: nat_less_iff)
  from inv have s: "seed_inv F sz pos st" unfolding scan_inv_def by blast
  from seed_invD(1)[OF s x(1)] x(2)
  have e: "lab sz st (seedLog st ! nat x) = labelStart + x" by simp
  then have "lab sz st (seedLog st ! nat x) \<noteq> NOLABEL" using labelStart_gt x0 by simp
  with e show "x \<in> {lab sz st p - labelStart | p. lab sz st p \<noteq> NOLABEL}"
    by (intro CollectI exI[of _ "seedLog st ! nat x"]) simp
qed

lemma final_log:
  assumes fits: "fits sz" and inv: "scan_inv F E sz pos st"
  shows "distinct (map fst (pushLog st))"
    and "\<forall>e \<in> set (pushLog st). snd e \<noteq> NOLABEL \<and>
           get_label (labelStorage st) (fst (fst e)) (snd (fst e)) = Inr (snd e)"
    and "fst ` set (pushLog st) = {p. lab sz st p \<noteq> NOLABEL}"
    and "snd ` set (pushLog st) = (\<lambda>k. labelStart + int k) ` {0..<length (seedLog st)}"
proof -
  from inv have b: "basic_inv F sz st" and g: "log_inv sz st" and s: "seed_inv F sz pos st"
    unfolding scan_inv_def by blast+
  from g have d: "distinct (map fst (pushLog st))"
    and e: "set (pushLog st) = {(p, lab sz st p) | p. lab sz st p \<noteq> NOLABEL}"
    by (simp_all add: log_inv_def)
  show "distinct (map fst (pushLog st))" by (rule d)
  show "\<forall>e \<in> set (pushLog st). snd e \<noteq> NOLABEL \<and>
           get_label (labelStorage st) (fst (fst e)) (snd (fst e)) = Inr (snd e)"
  proof
    fix x assume "x \<in> set (pushLog st)"
    then obtain p where p: "x = (p, lab sz st p)" "lab sz st p \<noteq> NOLABEL" unfolding e by blast
    then have "IsPixelPosValid sz p" using lab_invalid by blast
    from get_label_valid[OF fits basic_invD(1)[OF b] this] p
    show "snd x \<noteq> NOLABEL \<and> get_label (labelStorage st) (fst (fst x)) (snd (fst x)) = Inr (snd x)"
      by (simp add: lab_def)
  qed
  show "fst ` set (pushLog st) = {p. lab sz st p \<noteq> NOLABEL}" unfolding e by force
  show "snd ` set (pushLog st) = (\<lambda>k. labelStart + int k) ` {0..<length (seedLog st)}"
  proof (intro set_eqI iffI)
    fix l assume "l \<in> snd ` set (pushLog st)"
    then obtain p where p: "l = lab sz st p" "lab sz st p \<noteq> NOLABEL" unfolding e by force
    from final_range[OF inv p(2)] p(1)
    show "l \<in> (\<lambda>k. labelStart + int k) ` {0..<length (seedLog st)}" by auto
  next
    fix l assume "l \<in> (\<lambda>k. labelStart + int k) ` {0..<length (seedLog st)}"
    then obtain k where k: "k < length (seedLog st)" "l = labelStart + int k" by auto
    from seed_invD(1)[OF s k(1)] k(2) have l: "lab sz st (seedLog st ! k) = l" by simp
    then have "lab sz st (seedLog st ! k) \<noteq> NOLABEL" using k(2) labelStart_gt by simp
    with l have "(seedLog st ! k, l) \<in> set (pushLog st)" unfolding e by blast
    then show "l \<in> snd ` set (pushLog st)" by force
  qed
qed

subsection \<open>Real labels are kept\<close>

lemma labels_kept_refl: "labels_kept st st"
  by (simp add: labels_kept_def)

lemma labels_kept_trans: "labels_kept a b \<Longrightarrow> labels_kept b c \<Longrightarrow> labels_kept a c"
  unfolding labels_kept_def by blast

lemma labels_kept_same_grid:
  "labelStorage st' = labelStorage st \<Longrightarrow> labels_kept st st'"
  by (simp add: labels_kept_def)

lemma set_then_get: "set_label g r c v = Inr g' \<Longrightarrow> get_label g' r c = Inr v"
  by (auto simp: set_label_def get_label_def slot_def Let_def split: sum.splits if_splits)

lemma set_label_keeps:
  assumes s: "set_label g r c v = Inr g'" and n: "get_label g r c = Inr NOLABEL"
    and l: "get_label g r' c' = Inr l" "l \<noteq> NOLABEL"
  shows "get_label g' r' c' = Inr l"
proof -
  from s obtain k where k: "slot g r c = Inr k" "g' = g\<lparr>data := (data g)[k := v]\<rparr>"
    by (auto simp: set_label_def split: sum.splits)
  from l(1) obtain k' where k': "slot g r' c' = Inr k'" "data g ! k' = l"
    by (auto simp: get_label_def split: sum.splits)
  from n k(1) have "data g ! k = NOLABEL" by (simp add: get_label_def)
  with k'(2) l(2) have ne: "k' \<noteq> k" by auto
  have "slot g' r' c' = Inr k'" using k'(1) unfolding k(2) slot_def by simp
  then show ?thesis using k'(2) ne unfolding k(2) by (simp add: get_label_def)
qed

lemma push_and_label_writes:
  assumes "push_and_label p st = Inr st'"
  shows "myQueue st' = myQueue st @ [p] \<and>
         get_label (labelStorage st') (fst p) (snd p) = Inr (currentLabel st)"
proof -
  from assms obtain g where g:
    "set_label (labelStorage st) (fst p) (snd p) (currentLabel st) = Inr g"
    "st' = st\<lparr>labelStorage := g, myQueue := myQueue st @ [p],
              pushLog := pushLog st @ [(p, currentLabel st)]\<rparr>"
    by (auto simp: push_and_label_def split: sum.splits)
  show ?thesis unfolding g(2) using set_then_get[OF g(1)] by simp
qed

lemma push_and_label_keeps:
  assumes "push_and_label p st = Inr st'"
    and "get_label (labelStorage st) (fst p) (snd p) = Inr NOLABEL"
  shows "labels_kept st st'"
proof -
  from assms(1) obtain g where g:
    "set_label (labelStorage st) (fst p) (snd p) (currentLabel st) = Inr g"
    "st' = st\<lparr>labelStorage := g, myQueue := myQueue st @ [p],
              pushLog := pushLog st @ [(p, currentLabel st)]\<rparr>"
    by (auto simp: push_and_label_def split: sum.splits)
  show "labels_kept st st'"
    unfolding labels_kept_def g(2) using set_label_keeps[OF g(1) assms(2)] by simp
qed

lemma visit_push:
  assumes "visit pix pred sz q st = Inr st'"
  shows "labels_kept st st' \<and>
         (st' = st \<or>
          (get_label (labelStorage st) (fst q) (snd q) = Inr NOLABEL \<and>
           push_and_label q st = Inr st'))"
proof (cases "st' = st")
  case True
  then show ?thesis by (simp add: labels_kept_refl)
next
  case False
  with assms have n: "get_label (labelStorage st) (fst q) (snd q) = Inr NOLABEL"
    and p: "push_and_label q st = Inr st'"
    by (auto simp: visit_def split: if_splits option.splits sum.splits)
  from push_and_label_keeps[OF p n] n p show ?thesis by blast
qed

lemma drain_step_keeps:
  assumes "drain_step pix pred connect sz st = Inr st'"
  shows "labels_kept st st'"
proof -
  let ?st1 = "st\<lparr>myQueue := tl (myQueue st)\<rparr>"
  from assms have "for_loop (connect (hd (myQueue st))) (visit pix pred sz) ?st1 = Inr st'"
    by (simp add: drain_step_def Let_def)
  moreover have "labels_kept st ?st1" by (simp add: labels_kept_same_grid)
  ultimately show ?thesis
  proof (rule for_loop_preserves)
    fix q s s' assume "labels_kept st s" "visit pix pred sz q s = Inr s'"
    then show "labels_kept st s'" using visit_push labels_kept_trans by blast
  qed
qed

lemma drain_keeps:
  assumes "drain pix pred connect sz st = Some (Inr st')"
  shows "labels_kept st st'"
proof -
  have "labels_kept st st' \<and> myQueue st' = []"
    using assms labels_kept_refl
  proof (rule drain_preserves)
    fix s s' assume "labels_kept st s" "drain_step pix pred connect sz s = Inr s'"
    then show "labels_kept st s'" using drain_step_keeps labels_kept_trans by blast
  qed
  then show ?thesis by blast
qed

lemma scan_pixel_push:
  assumes "scan_pixel pix pred connect sz pos st = Some (Inr st')"
  shows "labels_kept st st' \<and>
         (seedLog st' = seedLog st \<or>
          get_label (labelStorage st) (fst pos) (snd pos) = Inr NOLABEL)"
proof -
  from assms obtain v where v: "pix (nat (fst pos)) (nat (snd pos)) = Some v"
    by (auto simp: scan_pixel_def split: option.splits)
  from assms v obtain b where b: "pred v = Inr b"
    by (auto simp: scan_pixel_def split: sum.splits)
  show ?thesis
  proof (cases b)
    case False
    with assms v b have "st' = st" by (simp add: scan_pixel_def)
    then show ?thesis by (simp add: labels_kept_refl)
  next
    case True
    from assms v b True obtain l where
      l: "get_label (labelStorage st) (fst pos) (snd pos) = Inr l"
      by (auto simp: scan_pixel_def split: sum.splits)
    let ?st0 = "st\<lparr>seedLog := seedLog st @ [pos]\<rparr>"
    let ?r = "if l = NOLABEL then push_and_label pos ?st0 else Inr st"
    from assms v b True l obtain st1 where st1: "?r = Inr st1"
      by (simp add: scan_pixel_def split: sum.splits)
    from assms v b True l st1 obtain st2 where
      st2: "drain pix pred connect sz st1 = Some (Inr st2)"
      and e: "st' = (if l = NOLABEL then st2\<lparr>currentLabel := wrap32 (currentLabel st2 + 1)\<rparr>
                     else st2)"
      by (simp add: scan_pixel_def split: sum.splits option.splits)
    have k2: "labels_kept st1 st2" using st2 by (rule drain_keeps)
    have k3: "labels_kept st2 st'" unfolding e by (simp add: labels_kept_same_grid)
    show ?thesis
    proof (cases "l = NOLABEL")
      case False
      with st1 have "st1 = st" by simp
      moreover have "seedLog st2 = seedLog st1"
      proof -
        have "seedLog st2 = seedLog st1 \<and> myQueue st2 = []"
          using st2 refl
        proof (rule drain_preserves[where Q = "\<lambda>s. seedLog s = seedLog st1"])
          fix s s' assume a: "seedLog s = seedLog st1" "drain_step pix pred connect sz s = Inr s'"
          from a(2) have "for_loop (connect (hd (myQueue s))) (visit pix pred sz)
                            (s\<lparr>myQueue := tl (myQueue s)\<rparr>) = Inr s'"
            by (simp add: drain_step_def Let_def)
          moreover have "seedLog (s\<lparr>myQueue := tl (myQueue s)\<rparr>) = seedLog st1" using a(1) by simp
          ultimately show "seedLog s' = seedLog st1"
          proof (rule for_loop_preserves)
            fix q t t' assume "seedLog t = seedLog st1" "visit pix pred sz q t = Inr t'"
            then show "seedLog t' = seedLog st1"
              by (auto simp: visit_def push_and_label_def
                       split: if_splits option.splits sum.splits)
          qed
        qed
        then show ?thesis by blast
      qed
      ultimately have "seedLog st' = seedLog st" using False unfolding e by simp
      moreover have "labels_kept st st'"
        using k2 k3 \<open>st1 = st\<close> labels_kept_trans by blast
      ultimately show ?thesis by blast
    next
      case True
      with st1 have p: "push_and_label pos ?st0 = Inr st1" by simp
      have n0: "get_label (labelStorage ?st0) (fst pos) (snd pos) = Inr NOLABEL"
        using l True by simp
      note pk = push_and_label_keeps[OF p n0]
      have "labels_kept st ?st0" by (simp add: labels_kept_same_grid)
      with pk k2 k3 have k: "labels_kept st st'" using labels_kept_trans by blast
      with l True show ?thesis by simp
    qed
  qed
qed

subsection \<open>The scenarios of the specification\<close>

text \<open>The model run on the examples of the specification: a 3 x 3 image with foreground
  at (0,0), (0,1), (1,1) and (2,2) has two components under 4-connectivity and one under
  8-connectivity; a single foreground pixel is one component; an image without
  foreground has none.\<close>

lemma scenario_A:
  "ConnectComponentFinder SquareBracketAccess BinaryPredicate_bool FourConnect
     [[True, True, False], [False, True, False], [False, False, True]] (3, 3) =
   Some (Inr [{(0, 0), (0, 1), (1, 1)}, {(2, 2)}])"
  by code_simp

lemma scenario_B:
  "ConnectComponentFinder SquareBracketAccess BinaryPredicate_bool EightConnect
     [[True, True, False], [False, True, False], [False, False, True]] (3, 3) =
   Some (Inr [{(0, 0), (0, 1), (1, 1), (2, 2)}])"
  by code_simp

lemma scenario_boundary:
  "ConnectComponentFinder SquareBracketAccess BinaryPredicate_char FourConnect [[7]] (1, 1) =
     Some (Inr [{(0, 0)}])"
  "ConnectComponentFinder SquareBracketAccess BinaryPredicate_char FourConnect
     [[0, 0], [0, 0]] (2, 2) = Some (Inr [])"
  by code_simp+

section \<open>The claims\<close>

subsection \<open>Pixel classifiers\<close>

text \<open>
  Claim C4, as amended. The built-in classifier is a total function of the pixel value
  alone on the two pixel types with a specialisation: for \<^verbatim>\<open>bool\<close> it returns the pixel
  value itself, for \<^verbatim>\<open>char\<close> it returns true exactly when the value is not zero. It
  classifies a value exactly when the value is a \<^verbatim>\<open>bool\<close> or a \<^verbatim>\<open>char\<close>, and fails with
  the unsupported-type error on every value of the other character and integer types.
  With either specialisation, no call of the finder fails with that error, whatever the
  accessor, the connectivity, the image and the size.
\<close>

theorem BinaryPredicate_builtin:
  "BinaryPred (BoolPixel b) = Inr b \<and>
   BinaryPred (CharPixel c) = Inr (c \<noteq> 0) \<and>
   (BinaryPred val = Inl UnsupportedType) = (val \<notin> range BoolPixel \<union> range CharPixel) \<and>
   (\<exists>fg. BinaryPred val = Inr fg) = (val \<in> range BoolPixel \<union> range CharPixel) \<and>
   ConnectComponentFinder access BinaryPredicate_bool connect img sz \<noteq>
     Some (Inl UnsupportedType) \<and>
   ConnectComponentFinder access' BinaryPredicate_char connect' img' sz' \<noteq>
     Some (Inl UnsupportedType)"
proof -
  have 1: "BinaryPred (BoolPixel b) = Inr b"
    by (simp add: BinaryPred_def BinaryPredicate_bool_def)
  have 2: "BinaryPred (CharPixel c) = Inr (c \<noteq> 0)"
    by (simp add: BinaryPred_def BinaryPredicate_char_def)
  have 3: "(BinaryPred val = Inl UnsupportedType) = (val \<notin> range BoolPixel \<union> range CharPixel)"
    by (cases val)
      (auto simp: BinaryPred_def BinaryPredicate_def BinaryPredicate_bool_def
         BinaryPredicate_char_def)
  have 4: "(\<exists>fg. BinaryPred val = Inr fg) = (val \<in> range BoolPixel \<union> range CharPixel)"
    by (cases val)
      (auto simp: BinaryPred_def BinaryPredicate_def BinaryPredicate_bool_def
         BinaryPredicate_char_def)
  have 5: "ConnectComponentFinder access BinaryPredicate_bool connect img sz \<noteq>
     Some (Inl UnsupportedType)"
    by (rule total_pred_supported) (simp add: BinaryPredicate_bool_def)
  have 6: "ConnectComponentFinder access' BinaryPredicate_char connect' img' sz' \<noteq>
     Some (Inl UnsupportedType)"
    by (rule total_pred_supported) (simp add: BinaryPredicate_char_def)
  from 1 2 3 4 5 6 show ?thesis by blast
qed

text \<open>
  Claim C4 as stated fails: of the small-integer and character types only \<^verbatim>\<open>char\<close> is
  classified by "nonzero is foreground". The value 1 of type \<^verbatim>\<open>unsigned char\<close>,
  \<^verbatim>\<open>signed char\<close> or \<^verbatim>\<open>short\<close> takes the primary template, which throws, and the finder
  on the 1 x 1 image holding an \<^verbatim>\<open>unsigned char\<close> 1 fails with the unsupported-type error,
  where the same image of \<^verbatim>\<open>char\<close> has one component.
\<close>

theorem small_integer_pixels_unsupported:
  "BinaryPred (UnsignedCharPixel 1) = Inl UnsupportedType \<and>
   BinaryPred (SignedCharPixel 1) = Inl UnsupportedType \<and>
   BinaryPred (ShortPixel 1) = Inl UnsupportedType \<and>
   ConnectComponentFinder SquareBracketAccess BinaryPred FourConnect
     [[UnsignedCharPixel 1]] (1, 1) = Some (Inl UnsupportedType) \<and>
   ConnectComponentFinder SquareBracketAccess BinaryPred FourConnect
     [[CharPixel 1]] (1, 1) = Some (Inr [{(0, 0)}])"
  by code_simp

subsection \<open>Neighbour generators\<close>

lemma offsets8: "({- 1, 0, 1} \<times> {- 1, 0, 1} - {(0, 0)} :: (int \<times> int) set) =
   {(- 1, - 1), (- 1, 0), (- 1, 1), (0, - 1), (0, 1), (1, - 1), (1, 0), (1, 1)}"
  by (simp add: insert_Times_insert insert_Diff_if)

text \<open>
  Claim C8. For every coordinate whose neighbours are representable in the \<^verbatim>\<open>int\<close> type
  (this includes every coordinate of every image), \<open>FourConnect\<close> returns exactly the four
  axis-aligned neighbours and \<open>EightConnect\<close> exactly the eight coordinates at the offsets
  \<open>{-1,0,1}\<^sup>2\<close> without \<open>(0,0)\<close>, each as a list in one fixed order and without a repetition.
  Nothing is filtered: the lists hold coordinates outside the image and negative ones.
\<close>

theorem neighbours_exact:
  assumes "INT_MIN < r" "r < INT_MAX" "INT_MIN < c" "c < INT_MAX"
  shows "FourConnect (r, c) = [(r + 1, c), (r, c + 1), (r - 1, c), (r, c - 1)] \<and>
         EightConnect (r, c) =
           [(r - 1, c - 1), (r - 1, c), (r - 1, c + 1),
            (r, c - 1), (r, c + 1),
            (r + 1, c - 1), (r + 1, c), (r + 1, c + 1)] \<and>
         distinct (FourConnect (r, c)) \<and> distinct (EightConnect (r, c)) \<and>
         set (EightConnect (r, c)) =
           (\<lambda>(dr, dc). (r + dr, c + dc)) ` ({- 1, 0, 1} \<times> {- 1, 0, 1} - {(0, 0)})"
proof -
  note four = FourConnect_unwrapped[OF assms]
  note eight = EightConnect_unwrapped[OF assms]
  have d4: "distinct (FourConnect (r, c))" unfolding four by simp
  have d8: "distinct (EightConnect (r, c))" unfolding eight by simp
  have s: "set (EightConnect (r, c)) =
           (\<lambda>(dr, dc). (r + dr, c + dc)) ` ({- 1, 0, 1} \<times> {- 1, 0, 1} - {(0, 0)})"
    unfolding eight offsets8 by simp
  show ?thesis
    using four eight s d4 d8 by blast
qed

theorem neighbours_exact_witness:
  "FourConnect (0, 0) = [(1, 0), (0, 1), (- 1, 0), (0, - 1)] \<and>
   EightConnect (0, 0) =
     [(- 1, - 1), (- 1, 0), (- 1, 1), (0, - 1), (0, 1), (1, - 1), (1, 0), (1, 1)]"
  using neighbours_exact[of 0 0] by (simp add: INT_MIN_def INT_MAX_def)

subsection \<open>The constructor of the label grid\<close>

text \<open>
  Claim C7, as amended. The constructor never fails with \<open>InvalidSize\<close>: it has no check of
  its own (the finder checks the size before it constructs the grid). For
  \<open>nrows \<ge> 1\<close>, \<open>ncols \<ge> 1\<close> and a number of pixels that fits an \<^verbatim>\<open>int\<close> it allocates
  exactly \<open>nrows * ncols\<close> slots, each \<open>NOLABEL\<close>.
\<close>

theorem new_Quick2DSizeT_allocates:
  "new_Quick2DSizeT nrows ncols \<noteq> Inl InvalidSize \<and>
   (1 \<le> nrows \<and> 1 \<le> ncols \<and> nrows * ncols \<le> INT_MAX \<longrightarrow>
      new_Quick2DSizeT nrows ncols =
        Inr \<lparr>cols = ncols, data = replicate (nat (nrows * ncols)) NOLABEL\<rparr>)"
proof -
  have a: "new_Quick2DSizeT nrows ncols \<noteq> Inl InvalidSize"
    by (simp add: new_Quick2DSizeT_def Let_def)
  have b: "new_Quick2DSizeT nrows ncols =
        Inr \<lparr>cols = ncols, data = replicate (nat (nrows * ncols)) NOLABEL\<rparr>"
    if h: "1 \<le> nrows \<and> 1 \<le> ncols \<and> nrows * ncols \<le> INT_MAX"
  proof -
    from h have p: "0 \<le> nrows * ncols" by simp
    then have "INT_MIN \<le> nrows * ncols" unfolding INT_MIN_def by linarith
    then have "wrap32 (nrows * ncols) = nrows * ncols" using h by (intro wrap32_id) simp_all
    with p show ?thesis by (simp add: new_Quick2DSizeT_def)
  qed
  from a b show ?thesis by blast
qed

theorem new_Quick2DSizeT_allocates_witness:
  "new_Quick2DSizeT 2 3 =
     Inr \<lparr>cols = 3, data = [NOLABEL, NOLABEL, NOLABEL, NOLABEL, NOLABEL, NOLABEL]\<rparr>"
  using new_Quick2DSizeT_allocates[of 2 3]
  by (simp add: INT_MAX_def numeral_eq_Suc)

text \<open>
  Claim C7 as stated fails: with zero rows the constructor returns an empty grid instead
  of failing, with a negative number of rows the failure is the vector's length error,
  and \<open>65536 * 65536\<close> wraps to 0 slots.
\<close>

theorem new_Quick2DSizeT_unchecked:
  "new_Quick2DSizeT 0 5 = Inr \<lparr>cols = 5, data = []\<rparr> \<and>
   new_Quick2DSizeT (- 1) 5 = Inl LengthError \<and>
   new_Quick2DSizeT 65536 65536 = Inr \<lparr>cols = 65536, data = []\<rparr>"
  by (simp add: new_Quick2DSizeT_def wrap32_def)

subsection \<open>A pixel type without a classifier\<close>

text \<open>
  Claim C5, as amended. With the primary template as the classifier, every call with
  \<open>nrows \<ge> 1\<close> and \<open>ncols \<ge> 1\<close> whose label grid is allocated fails with \<open>UnsupportedType\<close>
  at the first pixel: the error is the result of the whole call, and no result is returned.
\<close>

theorem unsupported_type_fails:
  assumes "1 \<le> nrows" "1 \<le> ncols" "0 \<le> wrap32 (nrows * ncols)"
    and "access img 0 0 = Some v"
  shows "ConnectComponentFinder access BinaryPredicate connect img (nrows, ncols) =
           Some (Inl UnsupportedType)"
proof -
  have r: "[0..nrows - 1] = 0 # [0 + 1..nrows - 1]" using assms(1) by (intro upto_rec1) simp
  have c: "[0..ncols - 1] = 0 # [0 + 1..ncols - 1]" using assms(2) by (intro upto_rec1) simp
  have "scan_pixel (access img) BinaryPredicate connect (nrows, ncols) (0, 0) st =
          Some (Inl UnsupportedType)" for st
    using assms(4) by (simp add: scan_pixel_def BinaryPredicate_def)
  then have "label_pixels (access img) BinaryPredicate connect (nrows, ncols) st =
          Some (Inl UnsupportedType)" for st
    unfolding label_pixels_def fst_conv snd_conv r c by simp
  then show ?thesis
    using assms(1-3)
    by (simp add: ConnectComponentFinder_def find_labels_def new_Quick2DSizeT_def Let_def)
qed

theorem unsupported_type_fails_witness:
  "ConnectComponentFinder RoundBracketAccess (BinaryPredicate :: int \<Rightarrow> error + bool)
     FourConnect (\<lambda>row col. 1) (2, 2) = Some (Inl UnsupportedType)"
  using unsupported_type_fails[of 2 2 RoundBracketAccess "\<lambda>row col. 1" 1 FourConnect]
  by (simp add: wrap32_def RoundBracketAccess_def)

text \<open>
  Claim C5 as stated fails: the check of the size and the allocation of the label grid
  come before the first classification, so a call with an invalid size fails with
  \<open>InvalidSize\<close> and one whose grid cannot be allocated with \<open>LengthError\<close>.
\<close>

theorem unsupported_after_size_check:
  "ConnectComponentFinder RoundBracketAccess (BinaryPredicate :: int \<Rightarrow> error + bool)
     FourConnect (\<lambda>row col. 1) (0, 1) = Some (Inl InvalidSize) \<and>
   ConnectComponentFinder RoundBracketAccess (BinaryPredicate :: int \<Rightarrow> error + bool)
     FourConnect (\<lambda>row col. 1) (46341, 46341) = Some (Inl LengthError)"
  by (simp add: ConnectComponentFinder_def find_labels_def new_Quick2DSizeT_def wrap32_def)

subsection \<open>The components partition the foreground\<close>

text \<open>
  Claim C1. For every image with \<open>nrows \<ge> 1\<close>, \<open>ncols \<ge> 1\<close> whose pixels can all be read and
  classified, the finder returns a result whenever the number of pixels fits an \<^verbatim>\<open>int\<close>,
  and every result it returns partitions the foreground: the union of the components is
  exactly the set of foreground coordinates (so no background coordinate is in a
  component), two components at different indices are disjoint, and every foreground
  coordinate is in the component of exactly one index.
\<close>

theorem finder_partition:
  assumes "1 \<le> nrows" "1 \<le> ncols" "supported (access img) pred (nrows, ncols)"
    and "connect = FourConnect \<or> connect = EightConnect"
  shows "(nrows * ncols \<le> INT_MAX \<longrightarrow>
            (\<exists>comps. ConnectComponentFinder access pred connect img (nrows, ncols) =
                       Some (Inr comps))) \<and>
         (\<forall>comps. ConnectComponentFinder access pred connect img (nrows, ncols) =
                     Some (Inr comps) \<longrightarrow>
            \<Union> (set comps) = foreground (access img) pred (nrows, ncols) \<and>
            (\<forall>i j. i < length comps \<and> j < length comps \<and> i \<noteq> j \<longrightarrow>
                   comps ! i \<inter> comps ! j = {}) \<and>
            (\<forall>p \<in> foreground (access img) pred (nrows, ncols).
               \<exists>!k. k < length comps \<and> p \<in> comps ! k))"
proof (intro conjI allI impI ballI)
  assume "nrows * ncols \<le> INT_MAX"
  with assms(1,2) have "fits (nrows, ncols)" by (simp add: fits_def)
  then show "\<exists>comps. ConnectComponentFinder access pred connect img (nrows, ncols) =
                       Some (Inr comps)"
    using assms(3,4) by (rule finder_returns)
next
  fix comps
  assume r: "ConnectComponentFinder access pred connect img (nrows, ncols) = Some (Inr comps)"
  let ?sz = "(nrows, ncols)"
  let ?F = "foreground (access img) pred ?sz"
  from finder_returned[where access = access and img = img and sz = ?sz, OF _ _ assms(3) refl refl assms(4) r]
    assms(1,2)
  obtain st where st: "scan_inv ?F (edges connect ?F) ?sz (fst ?sz, 0) st"
    "length comps = length (seedLog st)"
    "\<forall>k < length comps. comps ! k = {p. lab ?sz st p = labelStart + int k}"
    by auto
  have "\<Union> (set comps) = {p. lab ?sz st p \<noteq> NOLABEL}"
    using st(2,3,1) by (rule components_union)
  also have "\<dots> = ?F" using final_labelled[OF refl st(1)] by blast
  finally show u: "\<Union> (set comps) = ?F" .
  show "comps ! i \<inter> comps ! j = {}"
    if "i < length comps \<and> j < length comps \<and> i \<noteq> j" for i j
    using that st(3) by auto
  show "\<exists>!k. k < length comps \<and> p \<in> comps ! k" if p: "p \<in> ?F" for p
  proof -
    from p u obtain c where "c \<in> set comps" "p \<in> c" by blast
    then obtain k where k: "k < length comps" "p \<in> comps ! k"
      by (auto simp: in_set_conv_nth)
    have "k' = k" if "k' < length comps \<and> p \<in> comps ! k'" for k'
      using that k st(3) by auto
    with k show ?thesis by blast
  qed
qed

theorem finder_partition_witness:
  "ConnectComponentFinder RoundBracketAccess BinaryPredicate_bool FourConnect
     (\<lambda>row col. row = col) (2, 2) = Some (Inr [{(0, 0)}, {(1, 1)}]) \<and>
   foreground (RoundBracketAccess (\<lambda>row col. row = col)) BinaryPredicate_bool (2, 2) =
     {(0, 0), (1, 1)}"
proof -
  have ev: "ConnectComponentFinder RoundBracketAccess BinaryPredicate_bool FourConnect
     (\<lambda>row col. row = col) (2, 2) = Some (Inr [{(0, 0)}, {(1, 1)}])"
    by code_simp
  have sup: "supported (RoundBracketAccess (\<lambda>row col. row = col)) BinaryPredicate_bool (2, 2)"
    by (simp add: supported_def RoundBracketAccess_def BinaryPredicate_bool_def)
  from finder_partition[of 2 2 RoundBracketAccess "\<lambda>row col. row = col" BinaryPredicate_bool
      FourConnect, OF _ _ sup] ev
  show ?thesis by auto
qed

subsection \<open>Components are the classes of connectivity\<close>

text \<open>
  Claim C2. For every image with \<open>nrows \<ge> 1\<close>, \<open>ncols \<ge> 1\<close> whose pixels can all be read and
  classified, and with 4- or 8-connectivity, the finder returns a result whenever the
  number of pixels fits an \<^verbatim>\<open>int\<close>, and in every result it returns two foreground
  coordinates are in the same component if and only if a path of foreground coordinates
  leads from one to the other in which each coordinate is a neighbour of the one before.
\<close>

theorem finder_components_connected:
  assumes "1 \<le> nrows" "1 \<le> ncols" "supported (access img) pred (nrows, ncols)"
    and "connect = FourConnect \<or> connect = EightConnect"
  shows "(nrows * ncols \<le> INT_MAX \<longrightarrow>
            (\<exists>comps. ConnectComponentFinder access pred connect img (nrows, ncols) =
                       Some (Inr comps))) \<and>
         (\<forall>comps p q.
            ConnectComponentFinder access pred connect img (nrows, ncols) = Some (Inr comps) \<and>
            p \<in> foreground (access img) pred (nrows, ncols) \<and>
            q \<in> foreground (access img) pred (nrows, ncols) \<longrightarrow>
            ((\<exists>c \<in> set comps. p \<in> c \<and> q \<in> c) \<longleftrightarrow>
             connected connect (foreground (access img) pred (nrows, ncols)) p q))"
proof (intro conjI allI impI)
  assume "nrows * ncols \<le> INT_MAX"
  with assms(1,2) have "fits (nrows, ncols)" by (simp add: fits_def)
  then show "\<exists>comps. ConnectComponentFinder access pred connect img (nrows, ncols) =
                       Some (Inr comps)"
    using assms(3,4) by (rule finder_returns)
next
  let ?sz = "(nrows, ncols)"
  let ?F = "foreground (access img) pred ?sz"
  let ?E = "edges connect ?F"
  fix comps p q
  assume a: "ConnectComponentFinder access pred connect img ?sz = Some (Inr comps) \<and>
             p \<in> ?F \<and> q \<in> ?F"
  then have r: "ConnectComponentFinder access pred connect img ?sz = Some (Inr comps)"
    and p: "p \<in> ?F" by simp_all
  from finder_returned[where access = access and img = img and sz = ?sz, OF _ _ assms(3) refl refl assms(4) r]
    assms(1,2)
  obtain st where st: "scan_inv ?F ?E ?sz (fst ?sz, 0) st"
    "length comps = length (seedLog st)"
    "\<forall>k < length comps. comps ! k = {p. lab ?sz st p = labelStart + int k}"
    by auto
  have pl: "lab ?sz st p \<noteq> NOLABEL" using final_labelled[OF refl st(1)] p by blast
  from st(1) have cs: "conn_scan ?E ?sz st" unfolding scan_inv_def by blast
  have "(\<exists>c \<in> set comps. p \<in> c \<and> q \<in> c) \<longleftrightarrow> lab ?sz st q = lab ?sz st p"
    using st(2,3,1) pl by (rule same_component_iff)
  also have "\<dots> \<longleftrightarrow> (p, q) \<in> ?E\<^sup>*"
    using conn_scanD(2)[OF cs pl] conn_scan_closed[OF cs _ pl] by blast
  also have "\<dots> \<longleftrightarrow> connected connect ?F p q"
    using p by (simp add: connected_iff)
  finally show "(\<exists>c \<in> set comps. p \<in> c \<and> q \<in> c) \<longleftrightarrow> connected connect ?F p q" .
qed

theorem finder_components_connected_witness:
  "\<not> connected FourConnect
       (foreground (RoundBracketAccess (\<lambda>row col. row = col)) BinaryPredicate_bool (2, 2))
       (0, 0) (1, 1) \<and>
   connected EightConnect
       (foreground (RoundBracketAccess (\<lambda>row col. row = col)) BinaryPredicate_bool (2, 2))
       (0, 0) (1, 1)"
proof -
  let ?img = "\<lambda>row col :: nat. row = col"
  let ?F = "foreground (RoundBracketAccess ?img) BinaryPredicate_bool (2, 2)"
  have ev4: "ConnectComponentFinder RoundBracketAccess BinaryPredicate_bool FourConnect
     ?img (2, 2) = Some (Inr [{(0, 0)}, {(1, 1)}])"
    by code_simp
  have ev8: "ConnectComponentFinder RoundBracketAccess BinaryPredicate_bool EightConnect
     ?img (2, 2) = Some (Inr [{(1, 1), (0, 0)}])"
    by code_simp
  have sup: "supported (RoundBracketAccess ?img) BinaryPredicate_bool (2, 2)"
    by (simp add: supported_def RoundBracketAccess_def BinaryPredicate_bool_def)
  have fg: "(0, 0) \<in> ?F" "(1, 1) \<in> ?F"
    by (simp_all add: foreground_def IsPixelPosValid_def is_foreground_def
          RoundBracketAccess_def BinaryPredicate_bool_def)
  have t4: "\<forall>comps p q.
          ConnectComponentFinder RoundBracketAccess BinaryPredicate_bool FourConnect ?img (2, 2) =
            Some (Inr comps) \<and> p \<in> ?F \<and> q \<in> ?F \<longrightarrow>
          ((\<exists>c \<in> set comps. p \<in> c \<and> q \<in> c) \<longleftrightarrow> connected FourConnect ?F p q)"
    by (rule conjunct2[OF finder_components_connected[of 2 2 RoundBracketAccess ?img
          BinaryPredicate_bool FourConnect, OF _ _ sup]]) simp_all
  have t8: "\<forall>comps p q.
          ConnectComponentFinder RoundBracketAccess BinaryPredicate_bool EightConnect ?img (2, 2) =
            Some (Inr comps) \<and> p \<in> ?F \<and> q \<in> ?F \<longrightarrow>
          ((\<exists>c \<in> set comps. p \<in> c \<and> q \<in> c) \<longleftrightarrow> connected EightConnect ?F p q)"
    by (rule conjunct2[OF finder_components_connected[of 2 2 RoundBracketAccess ?img
          BinaryPredicate_bool EightConnect, OF _ _ sup]]) simp_all
  from t4[rule_format, OF conjI[OF ev4 conjI[OF fg]]]
  have a: "\<not> connected FourConnect ?F (0, 0) (1, 1)" by simp
  from t8[rule_format, OF conjI[OF ev8 conjI[OF fg]]]
  have b: "connected EightConnect ?F (0, 0) (1, 1)" by simp
  from a b show ?thesis by blast
qed

subsection \<open>Labels follow the order of discovery\<close>

text \<open>
  Claim C3. For every valid input the finder returns a result whenever the number of pixels
  fits an \<^verbatim>\<open>int\<close>, and for every result it returns: the labels of the grid, taken
  relative to \<open>labelStart\<close>, are exactly \<open>0, \<dots>, n - 1\<close> for the \<open>n\<close> components; component \<open>k\<close>
  is the set of pixels with label \<open>k\<close> and contains the \<open>k\<close>-th seed, that is the \<open>k\<close>-th
  unlabelled foreground pixel that the outer scan met; that seed is the first pixel of its
  component in row-major order, and the seeds are in row-major order.
\<close>

theorem finder_labels_in_scan_order:
  assumes "1 \<le> nrows" "1 \<le> ncols" "supported (access img) pred (nrows, ncols)"
    and "connect = FourConnect \<or> connect = EightConnect"
  shows "(nrows * ncols \<le> INT_MAX \<longrightarrow>
            (\<exists>comps. ConnectComponentFinder access pred connect img (nrows, ncols) =
                       Some (Inr comps))) \<and>
         (\<forall>comps. ConnectComponentFinder access pred connect img (nrows, ncols) =
                     Some (Inr comps) \<longrightarrow>
            (\<exists>st. find_labels access pred connect img (nrows, ncols) = Some (Inr st) \<and>
               length comps = length (seedLog st) \<and>
               {lab (nrows, ncols) st p - labelStart | p. lab (nrows, ncols) st p \<noteq> NOLABEL} =
                 {0..<int (length comps)} \<and>
               (\<forall>k < length comps.
                  comps ! k = {p. lab (nrows, ncols) st p - labelStart = int k} \<and>
                  seedLog st ! k \<in> comps ! k \<and>
                  (\<forall>p \<in> comps ! k. \<not> rm_less p (seedLog st ! k))) \<and>
               sorted_wrt rm_less (seedLog st)))"
proof (intro conjI allI impI)
  assume "nrows * ncols \<le> INT_MAX"
  with assms(1,2) have "fits (nrows, ncols)" by (simp add: fits_def)
  then show "\<exists>comps. ConnectComponentFinder access pred connect img (nrows, ncols) =
                       Some (Inr comps)"
    using assms(3,4) by (rule finder_returns)
next
  let ?sz = "(nrows, ncols)"
  let ?F = "foreground (access img) pred ?sz"
  let ?E = "edges connect ?F"
  fix comps
  assume r: "ConnectComponentFinder access pred connect img ?sz = Some (Inr comps)"
  from finder_returned[where access = access and img = img and sz = ?sz, OF _ _ assms(3) refl refl assms(4) r]
    assms(1,2)
  obtain st where fl: "find_labels access pred connect img ?sz = Some (Inr st)"
    and st: "scan_inv ?F ?E ?sz (fst ?sz, 0) st"
    "length comps = length (seedLog st)"
    "\<forall>k < length comps. comps ! k = {p. lab ?sz st p = labelStart + int k}"
    by auto
  have d: "{lab ?sz st p - labelStart | p. lab ?sz st p \<noteq> NOLABEL} = {0..<int (length comps)}"
    unfolding st(2) using st(1) by (rule final_labels_dense)
  have k: "\<forall>k < length comps.
             comps ! k = {p. lab ?sz st p - labelStart = int k} \<and>
             seedLog st ! k \<in> comps ! k \<and>
             (\<forall>p \<in> comps ! k. \<not> rm_less p (seedLog st ! k))"
  proof (intro allI impI conjI)
    fix k assume k: "k < length comps"
    with st(3) have "comps ! k = {p. lab ?sz st p = labelStart + int k}" by blast
    also have "\<dots> = {p. lab ?sz st p - labelStart = int k}" by auto
    finally show "comps ! k = {p. lab ?sz st p - labelStart = int k}" .
    show "seedLog st ! k \<in> comps ! k" using st(2,3,1) k by (rule final_seeds(1))
    show "\<forall>p \<in> comps ! k. \<not> rm_less p (seedLog st ! k)"
      using st(2,3,1) k by (rule final_seeds(2))
  qed
  from st(1) have "seed_inv ?F ?sz (fst ?sz, 0) st" unfolding scan_inv_def by blast
  then have s: "sorted_wrt rm_less (seedLog st)" by (rule seed_invD(3))
  from fl st(2) d k s
  show "\<exists>st. find_labels access pred connect img ?sz = Some (Inr st) \<and>
               length comps = length (seedLog st) \<and>
               {lab ?sz st p - labelStart | p. lab ?sz st p \<noteq> NOLABEL} =
                 {0..<int (length comps)} \<and>
               (\<forall>k < length comps.
                  comps ! k = {p. lab ?sz st p - labelStart = int k} \<and>
                  seedLog st ! k \<in> comps ! k \<and>
                  (\<forall>p \<in> comps ! k. \<not> rm_less p (seedLog st ! k))) \<and>
               sorted_wrt rm_less (seedLog st)"
    by blast
qed

theorem finder_labels_in_scan_order_witness:
  "\<exists>st. find_labels RoundBracketAccess BinaryPredicate_bool FourConnect
          (\<lambda>row col. row = col) (2, 2) = Some (Inr st) \<and>
        seedLog st = [(0, 0), (1, 1)] \<and>
        {lab (2, 2) st p - labelStart | p. lab (2, 2) st p \<noteq> NOLABEL} = {0..<2} \<and>
        {p. lab (2, 2) st p - labelStart = 0} = {(0, 0)} \<and>
        {p. lab (2, 2) st p - labelStart = 1} = {(1, 1)}"
proof -
  let ?img = "\<lambda>row col :: nat. row = col"
  have ev: "ConnectComponentFinder RoundBracketAccess BinaryPredicate_bool FourConnect
     ?img (2, 2) = Some (Inr [{(0, 0)}, {(1, 1)}])"
    by code_simp
  have sup: "supported (RoundBracketAccess ?img) BinaryPredicate_bool (2, 2)"
    by (simp add: supported_def RoundBracketAccess_def BinaryPredicate_bool_def)
  have "\<forall>comps. ConnectComponentFinder RoundBracketAccess BinaryPredicate_bool FourConnect
                     ?img (2, 2) = Some (Inr comps) \<longrightarrow>
            (\<exists>st. find_labels RoundBracketAccess BinaryPredicate_bool FourConnect ?img (2, 2) =
                     Some (Inr st) \<and>
               length comps = length (seedLog st) \<and>
               {lab (2, 2) st p - labelStart | p. lab (2, 2) st p \<noteq> NOLABEL} =
                 {0..<int (length comps)} \<and>
               (\<forall>k < length comps.
                  comps ! k = {p. lab (2, 2) st p - labelStart = int k} \<and>
                  seedLog st ! k \<in> comps ! k \<and>
                  (\<forall>p \<in> comps ! k. \<not> rm_less p (seedLog st ! k))) \<and>
               sorted_wrt rm_less (seedLog st))"
    by (rule conjunct2[OF finder_labels_in_scan_order[of 2 2 RoundBracketAccess ?img
          BinaryPredicate_bool FourConnect, OF _ _ sup]]) simp_all
  from this[rule_format, OF ev] obtain st where
    fl: "find_labels RoundBracketAccess BinaryPredicate_bool FourConnect ?img (2, 2) = Some (Inr st)"
    and n: "length [{(0, 0)}, {(1, 1)} :: IntPair set] = length (seedLog st)"
    and d: "{lab (2, 2) st p - labelStart | p. lab (2, 2) st p \<noteq> NOLABEL} =
              {0..<int (length [{(0, 0)}, {(1, 1)} :: IntPair set])}"
    and k: "\<forall>k < length [{(0, 0)}, {(1, 1)} :: IntPair set].
              [{(0, 0)}, {(1, 1)}] ! k = {p. lab (2, 2) st p - labelStart = int k} \<and>
              seedLog st ! k \<in> [{(0, 0)}, {(1, 1)}] ! k \<and>
              (\<forall>p \<in> [{(0, 0)}, {(1, 1)}] ! k. \<not> rm_less p (seedLog st ! k))"
    by blast
  from k[rule_format, of 0] have k0: "{p. lab (2, 2) st p - labelStart = 0} = {(0, 0)}"
    "seedLog st ! 0 = (0, 0)" by simp_all
  from k[rule_format, of 1] have k1: "{p. lab (2, 2) st p - labelStart = 1} = {(1, 1)}"
    "seedLog st ! 1 = (1, 1)" by simp_all
  from n obtain a b where ab: "seedLog st = [a, b]"
    by (cases "seedLog st"; cases "tl (seedLog st)") auto
  with k0(2) k1(2) have "seedLog st = [(0, 0), (1, 1)]" by simp
  with fl d k0(1) k1(1) show ?thesis by simp
qed

subsection \<open>Each coordinate is pushed once\<close>

text \<open>
  Claim C9. The label is written in the same step as the push: \<open>push_and_label\<close> appends the
  coordinate to the queue and leaves the current label in its slot. A neighbour is pushed
  only if its slot held \<open>NOLABEL\<close>, and so is a seed. Neither the visit of a neighbour nor
  the whole step of the outer scan at a pixel changes a slot that holds a real label (this
  holds from every state). In every call that returns a result (one does whenever the
  number of pixels fits an \<^verbatim>\<open>int\<close>), the log of all pushes, each recorded with the label
  written at that push, names no coordinate twice; the labels written are real labels; the
  final grid still holds, at every logged coordinate, the label written at its push; and
  the logged coordinates are exactly the labelled ones.
\<close>

theorem finder_pushes_once:
  assumes "1 \<le> nrows" "1 \<le> ncols" "supported (access img) pred (nrows, ncols)"
    and "connect = FourConnect \<or> connect = EightConnect"
  shows "(nrows * ncols \<le> INT_MAX \<longrightarrow>
            (\<exists>comps. ConnectComponentFinder access pred connect img (nrows, ncols) =
                       Some (Inr comps))) \<and>
         (\<forall>comps. ConnectComponentFinder access pred connect img (nrows, ncols) =
                     Some (Inr comps) \<longrightarrow>
            (\<exists>st. find_labels access pred connect img (nrows, ncols) = Some (Inr st) \<and>
               distinct (map fst (pushLog st)) \<and>
               (\<forall>e \<in> set (pushLog st). snd e \<noteq> NOLABEL \<and>
                  get_label (labelStorage st) (fst (fst e)) (snd (fst e)) = Inr (snd e)) \<and>
               fst ` set (pushLog st) = {p. lab (nrows, ncols) st p \<noteq> NOLABEL})) \<and>
         (\<forall>p q pos st st'.
            (push_and_label p st = Inr st' \<longrightarrow>
               myQueue st' = myQueue st @ [p] \<and>
               get_label (labelStorage st') (fst p) (snd p) = Inr (currentLabel st)) \<and>
            (visit (access img) pred (nrows, ncols) q st = Inr st' \<longrightarrow>
               labels_kept st st' \<and>
               (st' = st \<or>
                (get_label (labelStorage st) (fst q) (snd q) = Inr NOLABEL \<and>
                 push_and_label q st = Inr st'))) \<and>
            (scan_pixel (access img) pred connect (nrows, ncols) pos st = Some (Inr st') \<longrightarrow>
               labels_kept st st' \<and>
               (seedLog st' = seedLog st \<or>
                get_label (labelStorage st) (fst pos) (snd pos) = Inr NOLABEL)))"
proof (intro conjI allI impI)
  fix p q pos and st st' :: finder_state
  {
    assume "push_and_label p st = Inr st'"
    from push_and_label_writes[OF this]
    show "myQueue st' = myQueue st @ [p]"
      "get_label (labelStorage st') (fst p) (snd p) = Inr (currentLabel st)" by simp_all
  }
  {
    assume "visit (access img) pred (nrows, ncols) q st = Inr st'"
    from visit_push[OF this]
    show "labels_kept st st'"
      "st' = st \<or> (get_label (labelStorage st) (fst q) (snd q) = Inr NOLABEL \<and>
         push_and_label q st = Inr st')" by simp_all
  }
  {
    assume "scan_pixel (access img) pred connect (nrows, ncols) pos st = Some (Inr st')"
    from scan_pixel_push[OF this]
    show "labels_kept st st'"
      "seedLog st' = seedLog st \<or>
         get_label (labelStorage st) (fst pos) (snd pos) = Inr NOLABEL" by simp_all
  }
next
  assume "nrows * ncols \<le> INT_MAX"
  with assms(1,2) have "fits (nrows, ncols)" by (simp add: fits_def)
  then show "\<exists>comps. ConnectComponentFinder access pred connect img (nrows, ncols) =
                       Some (Inr comps)"
    using assms(3,4) by (rule finder_returns)
next
  let ?sz = "(nrows, ncols)"
  let ?F = "foreground (access img) pred ?sz"
  let ?E = "edges connect ?F"
  fix comps
  assume r: "ConnectComponentFinder access pred connect img ?sz = Some (Inr comps)"
  have fits: "fits ?sz" using _ _ r by (rule fits_if_returned) (use assms(1,2) in simp_all)
  from finder_returned[where access = access and img = img and sz = ?sz, OF _ _ assms(3) refl refl assms(4) r]
    assms(1,2)
  obtain st where fl: "find_labels access pred connect img ?sz = Some (Inr st)"
    and st: "scan_inv ?F ?E ?sz (fst ?sz, 0) st"
    by auto
  note fin = final_log[OF fits st]
  from fl fin(1,2,3)
  show "\<exists>st. find_labels access pred connect img ?sz = Some (Inr st) \<and>
               distinct (map fst (pushLog st)) \<and>
               (\<forall>e \<in> set (pushLog st). snd e \<noteq> NOLABEL \<and>
                  get_label (labelStorage st) (fst (fst e)) (snd (fst e)) = Inr (snd e)) \<and>
               fst ` set (pushLog st) = {p. lab ?sz st p \<noteq> NOLABEL}"
    by blast
qed

theorem finder_pushes_once_witness:
  "\<exists>st. find_labels RoundBracketAccess BinaryPredicate_bool EightConnect
          (\<lambda>row col. row = col) (2, 2) = Some (Inr st) \<and>
        distinct (map fst (pushLog st)) \<and>
        fst ` set (pushLog st) = {p. lab (2, 2) st p \<noteq> NOLABEL}"
proof -
  let ?img = "\<lambda>row col :: nat. row = col"
  have ev: "ConnectComponentFinder RoundBracketAccess BinaryPredicate_bool EightConnect
     ?img (2, 2) = Some (Inr [{(1, 1), (0, 0)}])"
    by code_simp
  have sup: "supported (RoundBracketAccess ?img) BinaryPredicate_bool (2, 2)"
    by (simp add: supported_def RoundBracketAccess_def BinaryPredicate_bool_def)
  have "\<forall>comps. ConnectComponentFinder RoundBracketAccess BinaryPredicate_bool EightConnect
                     ?img (2, 2) = Some (Inr comps) \<longrightarrow>
            (\<exists>st. find_labels RoundBracketAccess BinaryPredicate_bool EightConnect ?img (2, 2) =
                     Some (Inr st) \<and>
               distinct (map fst (pushLog st)) \<and>
               (\<forall>e \<in> set (pushLog st). snd e \<noteq> NOLABEL \<and>
                  get_label (labelStorage st) (fst (fst e)) (snd (fst e)) = Inr (snd e)) \<and>
               fst ` set (pushLog st) = {p. lab (2, 2) st p \<noteq> NOLABEL})"
    by (rule conjunct1[OF conjunct2[OF finder_pushes_once[of 2 2 RoundBracketAccess ?img
          BinaryPredicate_bool EightConnect, OF _ _ sup]]]) simp_all
  from this[rule_format, OF ev] show ?thesis by blast
qed

subsection \<open>Components are not empty\<close>

text \<open>
  Claim C10. In every result the finder returns for a valid input (it returns one whenever
  the number of pixels fits an \<^verbatim>\<open>int\<close>), no component is empty: component \<open>k\<close> contains
  the \<open>k\<close>-th seed. The length of the result is the number of seeds, and it is the number
  of distinct labels written during the scan.
\<close>

theorem finder_components_nonempty:
  assumes "1 \<le> nrows" "1 \<le> ncols" "supported (access img) pred (nrows, ncols)"
    and "connect = FourConnect \<or> connect = EightConnect"
  shows "(nrows * ncols \<le> INT_MAX \<longrightarrow>
            (\<exists>comps. ConnectComponentFinder access pred connect img (nrows, ncols) =
                       Some (Inr comps))) \<and>
         (\<forall>comps. ConnectComponentFinder access pred connect img (nrows, ncols) =
                     Some (Inr comps) \<longrightarrow>
            (\<forall>c \<in> set comps. c \<noteq> {}) \<and>
            (\<exists>st. find_labels access pred connect img (nrows, ncols) = Some (Inr st) \<and>
               (\<forall>k < length comps. seedLog st ! k \<in> comps ! k) \<and>
               length comps = length (seedLog st) \<and>
               length comps = card (snd ` set (pushLog st))))"
proof (intro conjI allI impI)
  assume "nrows * ncols \<le> INT_MAX"
  with assms(1,2) have "fits (nrows, ncols)" by (simp add: fits_def)
  then show "\<exists>comps. ConnectComponentFinder access pred connect img (nrows, ncols) =
                       Some (Inr comps)"
    using assms(3,4) by (rule finder_returns)
next
  let ?sz = "(nrows, ncols)"
  let ?F = "foreground (access img) pred ?sz"
  let ?E = "edges connect ?F"
  fix comps
  assume r: "ConnectComponentFinder access pred connect img ?sz = Some (Inr comps)"
  have fits: "fits ?sz" using _ _ r by (rule fits_if_returned) (use assms(1,2) in simp_all)
  from finder_returned[where access = access and img = img and sz = ?sz, OF _ _ assms(3) refl refl assms(4) r]
    assms(1,2)
  obtain st where fl: "find_labels access pred connect img ?sz = Some (Inr st)"
    and st: "scan_inv ?F ?E ?sz (fst ?sz, 0) st"
    "length comps = length (seedLog st)"
    "\<forall>k < length comps. comps ! k = {p. lab ?sz st p = labelStart + int k}"
    by auto
  have seeds: "\<forall>k < length comps. seedLog st ! k \<in> comps ! k"
    using final_seeds(1)[OF st(2,3,1)] by blast
  show ne: "\<forall>c \<in> set comps. c \<noteq> {}"
  proof
    fix c assume "c \<in> set comps"
    then obtain k where "k < length comps" "c = comps ! k" by (auto simp: in_set_conv_nth)
    with seeds show "c \<noteq> {}" by blast
  qed
  have "inj_on (\<lambda>k. labelStart + int k) {0..<length (seedLog st)}" by (simp add: inj_on_def)
  then have "card ((\<lambda>k. labelStart + int k) ` {0..<length (seedLog st)}) = length (seedLog st)"
    by (simp add: card_image)
  then have c: "length comps = card (snd ` set (pushLog st))"
    unfolding final_log(4)[OF fits st(1)] st(2) by simp
  from fl seeds st(2) c
  show "\<exists>st. find_labels access pred connect img ?sz = Some (Inr st) \<and>
               (\<forall>k < length comps. seedLog st ! k \<in> comps ! k) \<and>
               length comps = length (seedLog st) \<and>
               length comps = card (snd ` set (pushLog st))"
    by blast
qed

theorem finder_components_nonempty_witness:
  "\<exists>st. find_labels RoundBracketAccess BinaryPredicate_bool FourConnect
          (\<lambda>row col. row = col) (2, 2) = Some (Inr st) \<and>
        length (seedLog st) = 2 \<and> card (snd ` set (pushLog st)) = 2"
proof -
  let ?img = "\<lambda>row col :: nat. row = col"
  have ev: "ConnectComponentFinder RoundBracketAccess BinaryPredicate_bool FourConnect
     ?img (2, 2) = Some (Inr [{(0, 0)}, {(1, 1)}])"
    by code_simp
  have sup: "supported (RoundBracketAccess ?img) BinaryPredicate_bool (2, 2)"
    by (simp add: supported_def RoundBracketAccess_def BinaryPredicate_bool_def)
  have "\<forall>comps. ConnectComponentFinder RoundBracketAccess BinaryPredicate_bool FourConnect
                     ?img (2, 2) = Some (Inr comps) \<longrightarrow>
            (\<forall>c \<in> set comps. c \<noteq> {}) \<and>
            (\<exists>st. find_labels RoundBracketAccess BinaryPredicate_bool FourConnect ?img (2, 2) =
                     Some (Inr st) \<and>
               (\<forall>k < length comps. seedLog st ! k \<in> comps ! k) \<and>
               length comps = length (seedLog st) \<and>
               length comps = card (snd ` set (pushLog st)))"
    by (rule conjunct2[OF finder_components_nonempty[of 2 2 RoundBracketAccess ?img
          BinaryPredicate_bool FourConnect, OF _ _ sup]]) simp_all
  from this[rule_format, OF ev] obtain st where
    "find_labels RoundBracketAccess BinaryPredicate_bool FourConnect ?img (2, 2) = Some (Inr st)"
    "length [{(0, 0)}, {(1, 1)} :: IntPair set] = length (seedLog st)"
    "length [{(0, 0)}, {(1, 1)} :: IntPair set] = card (snd ` set (pushLog st))"
    by blast
  then show ?thesis by auto
qed

subsection \<open>The check of the size\<close>

text \<open>
  Claim C6. With \<open>nrows < 1\<close> or \<open>ncols < 1\<close> the call fails with \<open>InvalidSize\<close>, whatever the
  image, the accessor, the classifier and the connectivity are: nothing is allocated or
  read before, and no result is returned. With \<open>nrows \<ge> 1\<close> and \<open>ncols \<ge> 1\<close> (and a
  classifier that does not itself raise that error) the call does not fail with
  \<open>InvalidSize\<close>.
\<close>

theorem finder_invalid_size:
  "(nrows < 1 \<or> ncols < 1 \<longrightarrow>
      ConnectComponentFinder access pred connect img (nrows, ncols) = Some (Inl InvalidSize) \<and>
      find_labels access pred connect img (nrows, ncols) = Some (Inl InvalidSize)) \<and>
   (1 \<le> nrows \<and> 1 \<le> ncols \<and> (\<forall>v. pred v \<noteq> Inl InvalidSize) \<longrightarrow>
      ConnectComponentFinder access pred connect img (nrows, ncols) \<noteq> Some (Inl InvalidSize))"
proof (intro conjI impI)
  assume "nrows < 1 \<or> ncols < 1"
  then show "find_labels access pred connect img (nrows, ncols) = Some (Inl InvalidSize)"
    by (auto simp: find_labels_def)
  then show "ConnectComponentFinder access pred connect img (nrows, ncols) =
               Some (Inl InvalidSize)"
    by (simp add: ConnectComponentFinder_def)
next
  assume a: "1 \<le> nrows \<and> 1 \<le> ncols \<and> (\<forall>v. pred v \<noteq> Inl InvalidSize)"
  show "ConnectComponentFinder access pred connect img (nrows, ncols) \<noteq> Some (Inl InvalidSize)"
  proof
    assume "ConnectComponentFinder access pred connect img (nrows, ncols) = Some (Inl InvalidSize)"
    from finder_errors[OF _ _ this] a show False by simp
  qed
qed

theorem finder_invalid_size_witness:
  "ConnectComponentFinder RoundBracketAccess BinaryPredicate_bool FourConnect
     (\<lambda>row col. True) (0, 3) = Some (Inl InvalidSize) \<and>
   ConnectComponentFinder RoundBracketAccess BinaryPredicate_bool FourConnect
     (\<lambda>row col. True) (3, - 1) = Some (Inl InvalidSize) \<and>
   ConnectComponentFinder RoundBracketAccess BinaryPredicate_bool FourConnect
     (\<lambda>row col. True) (1, 1) \<noteq> Some (Inl InvalidSize)"
proof -
  have p: "\<forall>v. BinaryPredicate_bool v \<noteq> Inl InvalidSize"
    by (simp add: BinaryPredicate_bool_def)
  note t = finder_invalid_size[of _ _ RoundBracketAccess BinaryPredicate_bool FourConnect
      "\<lambda>row col. True"]
  from t[of 0 3] have a: "ConnectComponentFinder RoundBracketAccess BinaryPredicate_bool
      FourConnect (\<lambda>row col. True) (0, 3) = Some (Inl InvalidSize)" by simp
  from t[of 3 "- 1"] have b: "ConnectComponentFinder RoundBracketAccess BinaryPredicate_bool
      FourConnect (\<lambda>row col. True) (3, - 1) = Some (Inl InvalidSize)" by simp
  from t[of 1 1] p have c: "ConnectComponentFinder RoundBracketAccess BinaryPredicate_bool
      FourConnect (\<lambda>row col. True) (1, 1) \<noteq> Some (Inl InvalidSize)" by simp
  from a b c show ?thesis by blast
qed

end
